theory Spec2Isabelle
  imports Complex_Main "HOL-Library.Stream" "HOL-Library.Log_Nat"
begin

section \<open>The weighted sampler of the dollar-unit sampling notebook\<close>

text \<open>
  The notebook defines one function:
  \<^verbatim>\<open>
  def weightedRandomSample(n, weights):
      if any(weights < 0):
          print 'negative weight in weightedRandomSample'
          return float('NaN')
      else:
          wc = np.cumsum(weights, dtype=float)/np.sum(weights, dtype=float)
          theSam = np.random.random_sample((n,))
          return np.array(wc).searchsorted(theSam), theSam
  \<close>
  The embedding below follows it line by line. The arithmetic is that of IEEE binary64
  (\<open>dtype=float\<close>): every sum and quotient is rounded to the nearest double, ties to
  even, and overflows to an infinity. A finite double is carried as the rational it
  denotes. The sign of zero is not modelled; it does not influence any result here.

  The numpy routines are modelled from numpy's implementation: \<open>cumsum\<close> adds from left
  to right, \<open>sum\<close> uses pairwise summation, a division by zero gives NaN or an infinity
  without raising, \<open>searchsorted\<close> is a binary search in the order that puts NaN last,
  and \<open>random_sample\<close> rejects a negative size with \<open>ValueError\<close>.
\<close>

subsection \<open>Binary64 values and rounding\<close>

text \<open>A float of a numpy array: a finite value, an infinity or NaN.\<close>

datatype npfloat = Fin rat | PInf | NInf | NaN

text \<open>Rounding to the nearest integer, ties to the even one.\<close>

definition round_half_even :: "rat \<Rightarrow> int" where
  "round_half_even x =
     (if x - of_int \<lfloor>x\<rfloor> < 1 / 2 then \<lfloor>x\<rfloor>
      else if 1 / 2 < x - of_int \<lfloor>x\<rfloor> then \<lfloor>x\<rfloor> + 1
      else if even \<lfloor>x\<rfloor> then \<lfloor>x\<rfloor>
      else \<lfloor>x\<rfloor> + 1)"

text \<open>The position of the leading bit of a positive rational \<open>x\<close>: the integer \<open>k\<close>
  with \<open>2^k \<le> x < 2^(k+1)\<close>. The bit length of the integer part of \<open>x\<close> (or of
  \<open>1 / x\<close> below 1) gives a candidate that is at most one too large.\<close>

definition ilog2 :: "rat \<Rightarrow> int" where
  "ilog2 x =
     (if 1 \<le> x then bitlen \<lfloor>x\<rfloor> - 1
      else if 2 powi (1 - bitlen \<lfloor>1 / x\<rfloor>) \<le> x then 1 - bitlen \<lfloor>1 / x\<rfloor>
      else - bitlen \<lfloor>1 / x\<rfloor>)"

text \<open>The exponent of the last place of the double nearest to \<open>x\<close>: 52 places below the
  leading bit, and never below \<open>-1074\<close>, the last place of the subnormal doubles.\<close>

definition ulp_exponent :: "rat \<Rightarrow> int" where
  "ulp_exponent x = max (ilog2 \<bar>x\<bar> - 52) (- 1074)"

text \<open>Rounding with an exponent that is unbounded above, then the overflow rule.\<close>

definition round_to_ulp :: "rat \<Rightarrow> rat" where
  "round_to_ulp x =
     of_int (round_half_even (x / 2 powi ulp_exponent x)) * 2 powi ulp_exponent x"

definition rnd :: "rat \<Rightarrow> npfloat" where
  "rnd x =
     (if 2 ^ 1024 \<le> round_to_ulp x then PInf
      else if round_to_ulp x \<le> - (2 ^ 1024) then NInf
      else Fin (round_to_ulp x))"

text \<open>Float addition and division, with the IEEE rules for the special values.\<close>

fun np_add :: "npfloat \<Rightarrow> npfloat \<Rightarrow> npfloat" where
  "np_add NaN _ = NaN"
| "np_add _ NaN = NaN"
| "np_add PInf NInf = NaN"
| "np_add NInf PInf = NaN"
| "np_add PInf _ = PInf"
| "np_add _ PInf = PInf"
| "np_add NInf _ = NInf"
| "np_add _ NInf = NInf"
| "np_add (Fin a) (Fin b) = rnd (a + b)"

text \<open>numpy does not raise on a zero divisor: it gives NaN for 0/0 and a signed
  infinity otherwise.\<close>

fun np_divide :: "npfloat \<Rightarrow> npfloat \<Rightarrow> npfloat" where
  "np_divide NaN _ = NaN"
| "np_divide _ NaN = NaN"
| "np_divide (Fin a) (Fin b) =
     (if b \<noteq> 0 then rnd (a / b)
      else if a = 0 then NaN
      else if 0 < a then PInf
      else NInf)"
| "np_divide (Fin a) _ = Fin 0"
| "np_divide PInf (Fin b) = (if 0 \<le> b then PInf else NInf)"
| "np_divide NInf (Fin b) = (if 0 \<le> b then NInf else PInf)"
| "np_divide _ _ = NaN"

subsection \<open>Data\<close>

text \<open>The only exception the body can raise on an integer \<open>n\<close> and an array of finite
  weights: numpy refuses a negative dimension with \<open>ValueError\<close>.\<close>

datatype pyerror = ValueError

text \<open>What the function returns: the float NaN of the first branch, or the pair of
  arrays (indices, raw uniform values) of the second.\<close>

datatype retval = RetNaN | RetSample "nat list" "rat list"

text \<open>The ambient state the function touches: numpy's global random generator, as the
  stream of uniform values it will deliver next, and the lines printed so far.\<close>

record world =
  rng :: "rat stream"
  stdout :: "string list"

subsection \<open>The numpy operations used\<close>

text \<open>\<open>np.cumsum(weights, dtype=float)\<close>: the weights are cast to binary64, the first
  one is copied and every further entry is the rounded sum of the previous entry and the
  next weight.\<close>

fun cumsum_from :: "npfloat \<Rightarrow> npfloat list \<Rightarrow> npfloat list" where
  "cumsum_from acc [] = []"
| "cumsum_from acc (x # xs) = np_add acc x # cumsum_from (np_add acc x) xs"

definition np_cumsum :: "rat list \<Rightarrow> npfloat list" where
  "np_cumsum ws = (case map rnd ws of [] \<Rightarrow> [] | x # xs \<Rightarrow> x # cumsum_from x xs)"

text \<open>\<open>np.sum(weights, dtype=float)\<close> adds in another order than \<open>cumsum\<close>: numpy's
  pairwise summation. Fewer than 8 values are added left to right starting from 0. Up to
  128 values go through 8 accumulators: the first 8 values initialise them, every further
  full block of 8 is added component by component, the accumulators are added as a
  balanced tree and the remaining values are added one by one. A longer array is split
  near the middle, at a multiple of 8, and the two partial sums are added. The reduction
  starts from 0 and adds the pairwise sum of the whole array. (An array that is not of
  binary64 already is cast through a buffer of 8192 values and reduced buffer by buffer;
  the definition is the reduction of an array of binary64, or of one that fits the
  buffer. The general properties proved below use three facts about the total only: it
  is not negative, it is not below any single rounded weight, and it is 0 when every
  weight is 0.)\<close>

fun add_blocks :: "npfloat list \<Rightarrow> npfloat list \<Rightarrow> npfloat list \<times> npfloat list" where
  "add_blocks r xs =
     (if 8 \<le> length xs then add_blocks (map2 np_add r (take 8 xs)) (drop 8 xs)
      else (r, xs))"

declare add_blocks.simps [simp del]

definition add8 :: "npfloat list \<Rightarrow> npfloat" where
  "add8 r =
     np_add (np_add (np_add (r ! 0) (r ! 1)) (np_add (r ! 2) (r ! 3)))
            (np_add (np_add (r ! 4) (r ! 5)) (np_add (r ! 6) (r ! 7)))"

function pairwise_sum :: "npfloat list \<Rightarrow> npfloat" where
  "pairwise_sum a =
     (if length a < 8 then foldl np_add (Fin 0) a
      else if length a \<le> 128 then
        (case add_blocks (take 8 a) (drop 8 a) of (r, rest) \<Rightarrow> foldl np_add (add8 r) rest)
      else
        np_add (pairwise_sum (take (length a div 2 - length a div 2 mod 8) a))
               (pairwise_sum (drop (length a div 2 - length a div 2 mod 8) a)))"
  by pat_completeness auto
termination
  by (relation "measure length") auto

declare pairwise_sum.simps [simp del]

definition np_sum :: "rat list \<Rightarrow> npfloat" where
  "np_sum ws = np_add (Fin 0) (pairwise_sum (map rnd ws))"

text \<open>The order \<open>searchsorted\<close> compares with: the usual one on floats, with NaN above
  every other value (numpy's sorting order).\<close>

fun np_less :: "npfloat \<Rightarrow> npfloat \<Rightarrow> bool" where
  "np_less NaN _ = False"
| "np_less _ NaN = True"
| "np_less PInf _ = False"
| "np_less _ PInf = True"
| "np_less _ NInf = False"
| "np_less NInf _ = True"
| "np_less (Fin a) (Fin b) = (a < b)"

text \<open>\<open>a.searchsorted(v)\<close> with the default \<open>side='left'\<close>, for one key: a binary search
  on the half-open range \<open>[lo, hi)\<close> that moves right while the middle element is less
  than the key. It returns the length of the array when every element is less than the
  key.\<close>

function bsearch_left :: "npfloat list \<Rightarrow> npfloat \<Rightarrow> nat \<Rightarrow> nat \<Rightarrow> nat" where
  "bsearch_left a key lo hi =
     (if lo < hi then
        (if np_less (a ! (lo + (hi - lo) div 2)) key
         then bsearch_left a key (lo + (hi - lo) div 2 + 1) hi
         else bsearch_left a key lo (lo + (hi - lo) div 2))
      else lo)"
  by pat_completeness auto
termination
  by (relation "measure (\<lambda>(a, key, lo, hi). hi - lo)") auto

declare bsearch_left.simps [simp del]

definition searchsorted :: "npfloat list \<Rightarrow> rat list \<Rightarrow> nat list" where
  "searchsorted a vs = map (\<lambda>v. bsearch_left a (Fin v) 0 (length a)) vs"

text \<open>\<open>np.random.random_sample((n,))\<close>: raises \<open>ValueError\<close> on a negative size without
  touching the generator; otherwise takes the next \<open>n\<close> values of the generator.\<close>

definition random_sample :: "int \<Rightarrow> rat stream \<Rightarrow> pyerror + (rat list \<times> rat stream)" where
  "random_sample n g =
     (if n < 0 then Inl ValueError
      else Inr (stake (nat n) g, sdrop (nat n) g))"

subsection \<open>The sampler\<close>

text \<open>The local \<open>wc\<close>: the cumulative sums divided by the total.\<close>

definition wc :: "rat list \<Rightarrow> npfloat list" where
  "wc weights = map (\<lambda>c. np_divide c (np_sum weights)) (np_cumsum weights)"

definition weightedRandomSample ::
    "int \<Rightarrow> rat list \<Rightarrow> world \<Rightarrow> (pyerror + retval) \<times> world" where
  "weightedRandomSample n weights w =
     (if list_ex (\<lambda>x. x < 0) weights then
        (Inr RetNaN, w\<lparr>stdout := stdout w @ [''negative weight in weightedRandomSample'']\<rparr>)
      else
        (case random_sample n (rng w) of
           Inl e \<Rightarrow> (Inl e, w)
         | Inr (theSam, g) \<Rightarrow>
             (Inr (RetSample (searchsorted (wc weights) theSam) theSam), w\<lparr>rng := g\<rparr>)))"

subsection \<open>Predicates of the statements\<close>

text \<open>The input contract of the specification: at least one item, no negative weight,
  some positive weight.\<close>

definition valid_weights :: "rat list \<Rightarrow> bool" where
  "valid_weights ws \<longleftrightarrow> ws \<noteq> [] \<and> list_all (\<lambda>x. 0 \<le> x) ws \<and> list_ex (\<lambda>x. 0 < x) ws"

text \<open>Uniform draws lie in the half-open unit interval.\<close>

definition unit_draw :: "rat \<Rightarrow> bool" where
  "unit_draw t \<longleftrightarrow> 0 \<le> t \<and> t < 1"

text \<open>A rational that is a finite binary64 value: the cast leaves it alone. The entries
  of a float array are such values.\<close>

definition float64 :: "rat \<Rightarrow> bool" where
  "float64 x \<longleftrightarrow> rnd x = Fin x"

text \<open>A float that is not below zero: a non-negative finite double or plus infinity.\<close>

definition nonneg_float :: "npfloat \<Rightarrow> bool" where
  "nonneg_float a =
     (case a of Fin y \<Rightarrow> 0 \<le> y \<and> rnd y = Fin y | PInf \<Rightarrow> True | NInf \<Rightarrow> False | NaN \<Rightarrow> False)"

section \<open>Properties\<close>

subsection \<open>The order and the binary search\<close>

lemma np_less_trans_le: "\<not> np_less y x \<Longrightarrow> np_less y k \<Longrightarrow> np_less x k"
  by (cases x; cases y; cases k) auto

lemma bsearch_left_done: "\<not> lo < hi \<Longrightarrow> bsearch_left a key lo hi = lo"
  by (subst bsearch_left.simps) simp

lemma bsearch_left_go_right:
  "lo < hi \<Longrightarrow> np_less (a ! (lo + (hi - lo) div 2)) key \<Longrightarrow>
   bsearch_left a key lo hi = bsearch_left a key (lo + (hi - lo) div 2 + 1) hi"
  by (subst bsearch_left.simps) simp

lemma bsearch_left_go_left:
  "lo < hi \<Longrightarrow> \<not> np_less (a ! (lo + (hi - lo) div 2)) key \<Longrightarrow>
   bsearch_left a key lo hi = bsearch_left a key lo (lo + (hi - lo) div 2)"
  by (subst bsearch_left.simps) simp

lemma bsearch_left_bounds:
  "lo \<le> hi \<Longrightarrow> lo \<le> bsearch_left a key lo hi \<and> bsearch_left a key lo hi \<le> hi"
proof (induction a key lo hi rule: bsearch_left.induct)
  case (1 a key lo hi)
  show ?case
  proof (cases "lo < hi")
    case False
    with "1.prems" show ?thesis by (simp add: bsearch_left_done)
  next
    case True
    let ?mid = "lo + (hi - lo) div 2"
    from True have m: "lo \<le> ?mid" "?mid < hi" by auto
    show ?thesis
    proof (cases "np_less (a ! ?mid) key")
      case T: True
      from "1.IH"(1) [OF True T] m have "?mid + 1 \<le> bsearch_left a key (?mid + 1) hi \<and> bsearch_left a key (?mid + 1) hi \<le> hi" by simp
      with True T m show ?thesis by (simp add: bsearch_left_go_right)
    next
      case F: False
      from "1.IH"(2) [OF True F] m have "lo \<le> bsearch_left a key lo ?mid \<and> bsearch_left a key lo ?mid \<le> ?mid" by simp
      with True F m show ?thesis by (simp add: bsearch_left_go_left)
    qed
  qed
qed

lemma bsearch_left_stop:
  "lo \<le> hi \<Longrightarrow> bsearch_left a key lo hi = hi \<or> \<not> np_less (a ! bsearch_left a key lo hi) key"
proof (induction a key lo hi rule: bsearch_left.induct)
  case (1 a key lo hi)
  show ?case
  proof (cases "lo < hi")
    case False
    with "1.prems" show ?thesis by (simp add: bsearch_left_done)
  next
    case True
    let ?mid = "lo + (hi - lo) div 2"
    from True have m: "lo \<le> ?mid" "?mid < hi" by auto
    show ?thesis
    proof (cases "np_less (a ! ?mid) key")
      case T: True
      from "1.IH"(1) [OF True T] m
      have "bsearch_left a key (?mid + 1) hi = hi \<or> \<not> np_less (a ! bsearch_left a key (?mid + 1) hi) key" by simp
      with True T show ?thesis by (simp add: bsearch_left_go_right)
    next
      case F: False
      from "1.IH"(2) [OF True F] m
      have "bsearch_left a key lo ?mid = ?mid \<or> \<not> np_less (a ! bsearch_left a key lo ?mid) key" by simp
      with F have "\<not> np_less (a ! bsearch_left a key lo ?mid) key" by auto
      with True F show ?thesis by (simp add: bsearch_left_go_left)
    qed
  qed
qed

lemma bsearch_left_passed:
  "lo \<le> hi \<Longrightarrow> bsearch_left a key lo hi = lo \<or> np_less (a ! (bsearch_left a key lo hi - 1)) key"
proof (induction a key lo hi rule: bsearch_left.induct)
  case (1 a key lo hi)
  show ?case
  proof (cases "lo < hi")
    case False
    with "1.prems" show ?thesis by (simp add: bsearch_left_done)
  next
    case True
    let ?mid = "lo + (hi - lo) div 2"
    from True have m: "lo \<le> ?mid" "?mid < hi" by auto
    show ?thesis
    proof (cases "np_less (a ! ?mid) key")
      case T: True
      from "1.IH"(1) [OF True T] m
      have "bsearch_left a key (?mid + 1) hi = ?mid + 1 \<or> np_less (a ! (bsearch_left a key (?mid + 1) hi - 1)) key" by simp
      with T have "np_less (a ! (bsearch_left a key (?mid + 1) hi - 1)) key" by auto
      with True T show ?thesis by (simp add: bsearch_left_go_right)
    next
      case F: False
      from "1.IH"(2) [OF True F] m
      have "bsearch_left a key lo ?mid = lo \<or> np_less (a ! (bsearch_left a key lo ?mid - 1)) key" by simp
      with True F show ?thesis by (simp add: bsearch_left_go_left)
    qed
  qed
qed

lemma searchsorted_first:
  assumes srt: "\<And>i j. i \<le> j \<Longrightarrow> j < length a \<Longrightarrow> \<not> np_less (a ! j) (a ! i)"
  shows "bsearch_left a key 0 (length a) \<le> length a"
    and "bsearch_left a key 0 (length a) < length a \<Longrightarrow>
           \<not> np_less (a ! bsearch_left a key 0 (length a)) key"
    and "k < bsearch_left a key 0 (length a) \<Longrightarrow> np_less (a ! k) key"
proof -
  let ?r = "bsearch_left a key 0 (length a)"
  show le: "?r \<le> length a"
    using bsearch_left_bounds [of 0 "length a" a key] by simp
  show "?r < length a \<Longrightarrow> \<not> np_less (a ! ?r) key"
    using bsearch_left_stop [of 0 "length a" a key] by auto
  show "np_less (a ! k) key" if k: "k < ?r"
  proof -
    from k have "?r \<noteq> 0" by simp
    with bsearch_left_passed [of 0 "length a" a key]
    have p: "np_less (a ! (?r - 1)) key" by simp
    from k le have "k \<le> ?r - 1" "?r - 1 < length a" by auto
    then have "\<not> np_less (a ! (?r - 1)) (a ! k)" by (rule srt)
    then show ?thesis using p by (rule np_less_trans_le)
  qed
qed

subsection \<open>Rounding to binary64\<close>

lemma two_powi_pos: "0 < (2::rat) powi k"
  by (simp add: zero_less_power_int)

lemma two_powi_nat: "0 \<le> k \<Longrightarrow> (2::rat) powi k = of_int (2 ^ nat k)"
  by (simp add: power_int_nonneg_exp)

lemma two_powi_less: "j < k \<Longrightarrow> (2::rat) powi j < 2 powi k"
  by (rule power_int_strict_increasing) simp_all

lemma two_powi_le: "j \<le> k \<Longrightarrow> (2::rat) powi j \<le> 2 powi k"
  by (rule power_int_increasing) simp_all

lemma two_powi_neg: "(2::rat) powi (- k) = 1 / 2 powi k"
  by (rule power_int_minus_divide)

lemma ilog2_bounds_ge1:
  assumes x: "1 \<le> (x::rat)"
  shows "2 powi (bitlen \<lfloor>x\<rfloor> - 1) \<le> x \<and> x < 2 powi (bitlen \<lfloor>x\<rfloor>)"
proof -
  let ?n = "\<lfloor>x\<rfloor>" and ?b = "bitlen \<lfloor>x\<rfloor>"
  from x have n: "0 < ?n" by simp
  from bitlen_bounds [OF n] have lo: "2 ^ nat (?b - 1) \<le> ?n" and hi: "?n < 2 ^ nat ?b" by simp_all
  from n have b: "1 \<le> ?b" by (simp add: bitlen_alt_def) 
  have "(2::rat) powi (?b - 1) = of_int (2 ^ nat (?b - 1))" using b by (intro two_powi_nat) simp
  also have "\<dots> \<le> of_int ?n" using lo by (simp only: of_int_le_iff)
  also have "\<dots> \<le> x" by simp
  finally have 1: "2 powi (?b - 1) \<le> x" .
  from hi have "?n + 1 \<le> 2 ^ nat ?b" by simp
  then have "(of_int (?n + 1) :: rat) \<le> of_int (2 ^ nat ?b)" by (simp only: of_int_le_iff)
  moreover have "x < of_int (?n + 1)" by simp linarith
  moreover have "(2::rat) powi ?b = of_int (2 ^ nat ?b)" using b by (intro two_powi_nat) simp
  ultimately have "x < 2 powi ?b" by simp
  with 1 show ?thesis by simp
qed

lemma ilog2_bounds:
  assumes x: "0 < (x::rat)"
  shows "2 powi (ilog2 x) \<le> x \<and> x < 2 powi (ilog2 x + 1)"
proof (cases "1 \<le> x")
  case True
  with ilog2_bounds_ge1 [OF True] show ?thesis by (simp add: ilog2_def)
next
  case False
  let ?b = "bitlen \<lfloor>1 / x\<rfloor>"
  from False x have y: "1 \<le> 1 / x" by simp
  from ilog2_bounds_ge1 [OF y]
  have lo: "2 powi (?b - 1) \<le> 1 / x" and hi: "1 / x < 2 powi ?b" by simp_all
  from hi x have "1 < 2 powi ?b * x" by (simp add: field_simps)
  then have "1 / 2 powi ?b < x" using two_powi_pos [of ?b] by (simp add: field_simps)
  then have low: "2 powi (- ?b) < x" by (simp add: two_powi_neg)
  show ?thesis
  proof (cases "2 powi (1 - ?b) \<le> x")
    case T: True
    from lo x have "2 powi (?b - 1) * x \<le> 1" by (simp add: field_simps)
    then have "x \<le> 1 / 2 powi (?b - 1)" using two_powi_pos [of "?b - 1"] by (simp add: field_simps)
    then have "x \<le> 2 powi (1 - ?b)" using two_powi_neg [of "?b - 1"] by simp
    also have "\<dots> < 2 powi (1 - ?b + 1)" by (rule two_powi_less) simp
    finally show ?thesis using T False by (simp add: ilog2_def)
  next
    case F: False
    with low False show ?thesis by (simp add: ilog2_def)
  qed
qed

lemma ilog2_unique:
  assumes x: "0 < (x::rat)" and lo: "2 powi k \<le> x" and hi: "x < 2 powi (k + 1)"
  shows "ilog2 x = k"
proof -
  from ilog2_bounds [OF x] have a: "2 powi (ilog2 x) \<le> x" and b: "x < 2 powi (ilog2 x + 1)" by simp_all
  have "\<not> k + 1 \<le> ilog2 x"
  proof
    assume "k + 1 \<le> ilog2 x"
    then have "(2::rat) powi (k + 1) \<le> 2 powi (ilog2 x)" by (rule two_powi_le)
    with a hi show False by simp
  qed
  moreover have "\<not> ilog2 x + 1 \<le> k"
  proof
    assume "ilog2 x + 1 \<le> k"
    then have "(2::rat) powi (ilog2 x + 1) \<le> 2 powi k" by (rule two_powi_le)
    with b lo show False by simp
  qed
  ultimately show ?thesis by simp
qed

lemma ilog2_mono:
  assumes x: "0 < (x::rat)" and xy: "x \<le> y"
  shows "ilog2 x \<le> ilog2 y"
proof (rule ccontr)
  assume "\<not> ?thesis"
  then have "ilog2 y + 1 \<le> ilog2 x" by simp
  then have "(2::rat) powi (ilog2 y + 1) \<le> 2 powi (ilog2 x)" by (rule two_powi_le)
  moreover from x xy have y: "0 < y" by simp
  moreover note ilog2_bounds [OF x] ilog2_bounds [OF y] xy
  ultimately show False by simp
qed

lemma rhe_of_int: "round_half_even (of_int m) = m"
  by (simp add: round_half_even_def)

lemma rhe_floor_le: "\<lfloor>x\<rfloor> \<le> round_half_even x"
  by (simp add: round_half_even_def)

lemma rhe_le_floor1: "round_half_even x \<le> \<lfloor>x\<rfloor> + 1"
  by (simp add: round_half_even_def)

lemma rhe_mono:
  assumes xy: "x \<le> y"
  shows "round_half_even x \<le> round_half_even y"
proof (cases "\<lfloor>x\<rfloor> = \<lfloor>y\<rfloor>")
  case True
  with xy show ?thesis by (auto simp: round_half_even_def)
next
  case False
  with xy have "\<lfloor>x\<rfloor> < \<lfloor>y\<rfloor>" using floor_mono [OF xy] by simp
  then have "\<lfloor>x\<rfloor> + 1 \<le> \<lfloor>y\<rfloor>" by simp
  with rhe_le_floor1 [of x] rhe_floor_le [of y] show ?thesis by linarith
qed

lemma rhe_le_int: "x \<le> of_int m \<Longrightarrow> round_half_even x \<le> m"
  using rhe_mono [of x "of_int m"] by (simp add: rhe_of_int)

lemma rhe_ge_int: "of_int m \<le> x \<Longrightarrow> m \<le> round_half_even x"
  using rhe_mono [of "of_int m" x] by (simp add: rhe_of_int)

lemma rhe_near:
  assumes "\<bar>x - of_int m\<bar> < 1 / 2"
  shows "round_half_even x = m"
proof -
  from assms have a: "x - 1/2 < of_int m" and b: "of_int m < x + 1/2" by linarith+
  show ?thesis
  proof (cases "of_int m \<le> x")
    case True
    with a b have "\<lfloor>x\<rfloor> = m" unfolding floor_eq_iff by auto
    with a b True show ?thesis by (simp add: round_half_even_def) 
  next
    case False
    with a b have "\<lfloor>x\<rfloor> = m - 1" unfolding floor_eq_iff by auto
    with a b False show ?thesis by (simp add: round_half_even_def) 
  qed
qed

lemma rhe_tie_down:
  assumes "x = of_int m + 1 / 2" and "even m"
  shows "round_half_even x = m"
proof -
  from assms(1) have "\<lfloor>x\<rfloor> = m" by (intro floor_unique) simp_all
  with assms show ?thesis by (simp add: round_half_even_def)
qed

lemma rhe_tie_up:
  assumes "x = of_int m - 1 / 2" and "even m"
  shows "round_half_even x = m"
proof -
  from assms(1) have "\<lfloor>x\<rfloor> = m - 1" by (intro floor_unique) simp_all
  with assms show ?thesis by (simp add: round_half_even_def)
qed

lemma ulp_exponent_ge: "- 1074 \<le> ulp_exponent x"
  by (simp add: ulp_exponent_def)

lemma ulp_exponent_mono:
  assumes "0 < x" "x \<le> y"
  shows "ulp_exponent x \<le> ulp_exponent y"
  using ilog2_mono [of "\<bar>x\<bar>" "\<bar>y\<bar>"] assms by (simp add: ulp_exponent_def)

lemma rtu_zero: "round_to_ulp 0 = 0"
  using rhe_of_int [of 0] by (simp add: round_to_ulp_def)

lemma rtu_nonneg:
  assumes "0 \<le> x"
  shows "0 \<le> round_to_ulp x"
proof -
  from assms have "(of_int 0 :: rat) \<le> x / 2 powi ulp_exponent x"
    using two_powi_pos [of "ulp_exponent x"] by simp
  then have "0 \<le> round_half_even (x / 2 powi ulp_exponent x)" by (rule rhe_ge_int)
  then show ?thesis using two_powi_pos [of "ulp_exponent x"] by (simp add: round_to_ulp_def)
qed

lemma grid_div:
  assumes "E \<le> e"
  shows "of_int m * (2::rat) powi e / 2 powi E = of_int (m * 2 ^ nat (e - E))"
proof -
  have "(2::rat) powi e / 2 powi E = 2 powi (e - E)"
    by (simp add: power_int_diff)
  also from assms have "\<dots> = of_int (2 ^ nat (e - E))" by (intro two_powi_nat) simp
  finally have "of_int m * ((2::rat) powi e / 2 powi E) = of_int m * of_int (2 ^ nat (e - E))"
    by simp
  then show ?thesis by simp
qed

text \<open>A value on the grid of its own last place is left alone.\<close>

lemma rtu_fix:
  assumes x: "x = of_int m * 2 powi e" and e: "ulp_exponent x \<le> e"
  shows "round_to_ulp x = x"
proof -
  let ?E = "ulp_exponent x"
  have q: "x / 2 powi ?E = of_int (m * 2 ^ nat (e - ?E))"
    using grid_div [OF e, of m] x by simp
  then have "round_half_even (x / 2 powi ?E) = m * 2 ^ nat (e - ?E)"
    by (simp only: rhe_of_int)
  then have "round_to_ulp x = of_int (m * 2 ^ nat (e - ?E)) * 2 powi ?E"
    by (simp add: round_to_ulp_def)
  also have "\<dots> = x / 2 powi ?E * 2 powi ?E"
    by (simp only: q)
  also have "\<dots> = x" using two_powi_pos [of ?E] by simp
  finally show ?thesis .
qed

text \<open>The rounded value stays within the binade of \<open>x\<close>.\<close>

lemma rtu_upper:
  assumes x: "0 < x"
  shows "round_to_ulp x \<le> 2 powi (ulp_exponent x + 53)"
proof -
  let ?E = "ulp_exponent x"
  have "ilog2 x + 1 \<le> ?E + 53" using x by (simp add: ulp_exponent_def)
  then have "(2::rat) powi (ilog2 x + 1) \<le> 2 powi (?E + 53)" by (rule two_powi_le)
  with ilog2_bounds [OF x] have "x \<le> 2 powi (?E + 53)" by simp
  also have "\<dots> = 2 powi 53 * 2 powi ?E" using power_int_add [of "2::rat" 53 ?E] by (simp add: add.commute)
  finally have "x / 2 powi ?E \<le> of_int (2 ^ 53)"
    using two_powi_pos [of ?E] by (simp add: field_simps)
  then have "round_half_even (x / 2 powi ?E) \<le> 2 ^ 53" by (rule rhe_le_int)
  then have "(of_int (round_half_even (x / 2 powi ?E)) :: rat) \<le> of_int (2 ^ 53)"
    by (simp only: of_int_le_iff)
  then have "round_to_ulp x \<le> of_int (2 ^ 53) * 2 powi ?E"
    using two_powi_pos [of ?E] by (simp add: round_to_ulp_def)
  also have "\<dots> = 2 powi (?E + 53)" using power_int_add [of "2::rat" 53 ?E] by (simp add: add.commute)
  finally show ?thesis .
qed

lemma rtu_lower:
  assumes x: "0 < x" and n: "- 1074 < ulp_exponent x"
  shows "2 powi (ulp_exponent x + 52) \<le> round_to_ulp x"
proof -
  let ?E = "ulp_exponent x"
  from n x have "?E + 52 = ilog2 x" by (simp add: ulp_exponent_def max_def split: if_splits)
  with ilog2_bounds [OF x] have "2 powi (?E + 52) \<le> x" by simp
  moreover have "(2::rat) powi (?E + 52) = 2 powi 52 * 2 powi ?E"
    using power_int_add [of "2::rat" 52 ?E] by (simp add: add.commute)
  ultimately have "of_int (2 ^ 52) \<le> x / 2 powi ?E"
    using two_powi_pos [of ?E] by (simp add: field_simps)
  then have "2 ^ 52 \<le> round_half_even (x / 2 powi ?E)" by (rule rhe_ge_int)
  then have "(of_int (2 ^ 52) :: rat) \<le> of_int (round_half_even (x / 2 powi ?E))"
    by (simp only: of_int_le_iff)
  then have "of_int (2 ^ 52) * 2 powi ?E \<le> round_to_ulp x"
    using two_powi_pos [of ?E] by (simp add: round_to_ulp_def)
  moreover have "of_int (2 ^ 52) * 2 powi ?E = (2::rat) powi (?E + 52)"
    using power_int_add [of "2::rat" 52 ?E] by (simp add: add.commute)
  ultimately show ?thesis by simp
qed

lemma rtu_mono:
  assumes x: "0 \<le> x" and xy: "x \<le> y"
  shows "round_to_ulp x \<le> round_to_ulp y"
proof (cases "x = 0")
  case True
  with xy rtu_nonneg [of y] show ?thesis by (simp add: rtu_zero)
next
  case False
  with x have x0: "0 < x" by simp
  with xy have y0: "0 < y" by simp
  from ulp_exponent_mono [OF x0 xy] have le: "ulp_exponent x \<le> ulp_exponent y" .
  show ?thesis
  proof (cases "ulp_exponent x = ulp_exponent y")
    case True
    let ?E = "ulp_exponent y"
    from xy have "x / 2 powi ?E \<le> y / 2 powi ?E"
      using two_powi_pos [of ?E] by (simp add: divide_right_mono)
    then have "round_half_even (x / 2 powi ?E) \<le> round_half_even (y / 2 powi ?E)"
      by (rule rhe_mono)
    then have "(of_int (round_half_even (x / 2 powi ?E)) :: rat)
        \<le> of_int (round_half_even (y / 2 powi ?E))" by (simp only: of_int_le_iff)
    then show ?thesis using True two_powi_pos [of ?E] by (simp add: round_to_ulp_def)
  next
    case F: False
    with le have lt: "ulp_exponent x < ulp_exponent y" by simp
    with ulp_exponent_ge [of x] have "- 1074 < ulp_exponent y" by simp
    from rtu_lower [OF y0 this] have a: "2 powi (ulp_exponent y + 52) \<le> round_to_ulp y" .
    from lt have "ulp_exponent x + 53 \<le> ulp_exponent y + 52" by simp
    then have "(2::rat) powi (ulp_exponent x + 53) \<le> 2 powi (ulp_exponent y + 52)"
      by (rule two_powi_le)
    with rtu_upper [OF x0] a show ?thesis by simp
  qed
qed

lemma rtu_idem:
  assumes x: "0 \<le> x"
  shows "round_to_ulp (round_to_ulp x) = round_to_ulp x"
proof (cases "round_to_ulp x = 0")
  case True
  then show ?thesis by (simp add: rtu_zero)
next
  case False
  let ?y = "round_to_ulp x" and ?E = "ulp_exponent x"
  from False rtu_nonneg [OF x] have y0: "0 < ?y" by simp
  from False x have x0: "0 < x" by (cases "x = 0") (simp_all add: rtu_zero)
  have grid: "?y = of_int (round_half_even (x / 2 powi ?E)) * 2 powi ?E"
    by (simp add: round_to_ulp_def)
  show ?thesis
  proof (cases "?y < 2 powi (?E + 53)")
    case True
    have "ilog2 ?y < ?E + 53"
    proof (rule ccontr)
      assume "\<not> ?thesis"
      then have "(2::rat) powi (?E + 53) \<le> 2 powi (ilog2 ?y)" by (intro two_powi_le) simp
      with ilog2_bounds [OF y0] True show False by simp
    qed
    with ulp_exponent_ge [of x] y0 have "ulp_exponent ?y \<le> ?E" by (simp add: ulp_exponent_def)
    with grid show ?thesis by (rule rtu_fix)
  next
    case F: False
    with rtu_upper [OF x0] have eq: "?y = 2 powi (?E + 53)" by simp
    have "ilog2 ?y = ?E + 53"
      using y0 by (rule ilog2_unique) (simp_all add: eq two_powi_less)
    with y0 ulp_exponent_ge [of x] have E': "ulp_exponent ?y = ?E + 1" by (simp add: ulp_exponent_def)
    have "?y = of_int (2 ^ 52) * 2 powi (?E + 1)"
      using power_int_add [of "2::rat" 52 "?E + 1"] by (simp add: eq add.commute)
    then show ?thesis using E' by (intro rtu_fix [where m = "2 ^ 52" and e = "?E + 1"]) simp_all
  qed
qed

lemma np_less_irrefl: "\<not> np_less a a"
  by (cases a) auto

lemma np_le_trans: "\<not> np_less b a \<Longrightarrow> \<not> np_less c b \<Longrightarrow> \<not> np_less c a"
  by (cases a; cases b; cases c) auto

lemma np_le_antisym: "\<not> np_less a b \<Longrightarrow> \<not> np_less b a \<Longrightarrow> a = b"
  by (cases a; cases b) auto

lemma rnd_zero: "rnd 0 = Fin 0"
  by (simp add: rnd_def rtu_zero)

lemma rnd_cases:
  assumes "0 \<le> x"
  obtains (inf) "2 ^ 1024 \<le> round_to_ulp x" "rnd x = PInf"
        | (fin) "0 \<le> round_to_ulp x" "round_to_ulp x < 2 ^ 1024" "rnd x = Fin (round_to_ulp x)"
proof (cases "2 ^ 1024 \<le> round_to_ulp x")
  case True
  then show ?thesis by (intro inf) (simp_all add: rnd_def)
next
  case False
  moreover from rtu_nonneg [OF assms] have "0 \<le> round_to_ulp x" .
  moreover from this have "\<not> round_to_ulp x \<le> - (2 ^ 1024)"
    by (simp add: not_le)
  ultimately show ?thesis by (intro fin) (simp_all add: rnd_def)
qed

lemma rnd_nonneg:
  assumes x: "0 \<le> x"
  shows "nonneg_float (rnd x)"
using x proof (cases rule: rnd_cases)
  case inf
  then show ?thesis by (simp add: nonneg_float_def)
next
  case fin
  from fin(1) have "rnd (round_to_ulp x) = Fin (round_to_ulp x)"
    using fin(2) rtu_idem [OF x]
    by (cases "2 ^ 1024 \<le> round_to_ulp x") (simp_all add: rnd_def)
  with fin show ?thesis by (simp add: nonneg_float_def)
qed

lemma rnd_mono:
  assumes x: "0 \<le> x" and xy: "x \<le> y"
  shows "\<not> np_less (rnd y) (rnd x)"
proof -
  from x xy have y: "0 \<le> y" by simp
  from rtu_mono [OF x xy] have m: "round_to_ulp x \<le> round_to_ulp y" .
  show ?thesis
  using x proof (cases rule: rnd_cases)
    case inf
    with m have "2 ^ 1024 \<le> round_to_ulp y" by simp
    with inf show ?thesis by (simp add: rnd_def)
  next
    case fx: fin
    show ?thesis
    using y proof (cases rule: rnd_cases)
      case inf
      with fx show ?thesis by simp
    next
      case fin
      with fx m show ?thesis by simp
    qed
  qed
qed

lemma nonneg_float_cases:
  assumes "nonneg_float a"
  obtains (fin) y where "a = Fin y" "0 \<le> y" "rnd y = Fin y" | (inf) "a = PInf"
  using assms by (cases a) (auto simp: nonneg_float_def)

lemma nonneg_float_zero: "nonneg_float (Fin 0)"
  by (simp add: nonneg_float_def rnd_zero)

lemma np_add_nonneg:
  assumes a: "nonneg_float a" and b: "nonneg_float b"
  shows "nonneg_float (np_add a b)"
    and "\<not> np_less (np_add a b) a"
    and "\<not> np_less (np_add a b) b"
proof -
  have "nonneg_float (np_add a b) \<and> \<not> np_less (np_add a b) a \<and> \<not> np_less (np_add a b) b"
  using a proof (cases rule: nonneg_float_cases)
    case inf
    with b show ?thesis
      by (cases b) (simp_all add: nonneg_float_def)
  next
    case fa: (fin x)
    show ?thesis
    using b proof (cases rule: nonneg_float_cases)
      case inf
      with fa show ?thesis by (simp add: nonneg_float_def)
    next
      case (fin y)
      from fa fin have s: "0 \<le> x + y" by simp
      from fa fin have "\<not> np_less (rnd (x + y)) (rnd x)" by (intro rnd_mono) simp_all
      moreover from fa fin have "\<not> np_less (rnd (x + y)) (rnd y)" by (intro rnd_mono) simp_all
      ultimately show ?thesis using fa fin rnd_nonneg [OF s] by simp
    qed
  qed
  then show "nonneg_float (np_add a b)" "\<not> np_less (np_add a b) a" "\<not> np_less (np_add a b) b"
    by simp_all
qed

lemma np_add_zero_right: "nonneg_float a \<Longrightarrow> np_add a (Fin 0) = a"
  by (erule nonneg_float_cases) simp_all

lemma np_add_zero_left: "nonneg_float a \<Longrightarrow> np_add (Fin 0) a = a"
  by (erule nonneg_float_cases) simp_all

subsection \<open>Running sums, the pairwise sum and the cumulative weights\<close>

lemma cumsum_from_length: "length (cumsum_from acc xs) = length xs"
  by (induction xs arbitrary: acc) simp_all

lemma cumsum_from_nth:
  "k < length xs \<Longrightarrow>
   (acc # cumsum_from acc xs) ! Suc k = np_add ((acc # cumsum_from acc xs) ! k) (xs ! k)"
proof (induction xs arbitrary: acc k)
  case Nil
  then show ?case by simp
next
  case (Cons x xs)
  show ?case
  proof (cases k)
    case 0
    then show ?thesis by simp
  next
    case (Suc j)
    with Cons.prems have "j < length xs" by simp
    from Cons.IH [OF this, of "np_add acc x"] Suc show ?thesis by simp
  qed
qed

lemma cumsum_from_nonneg:
  assumes "nonneg_float acc" and "\<forall>x \<in> set xs. nonneg_float x"
  shows "\<forall>c \<in> set (cumsum_from acc xs). nonneg_float c \<and> \<not> np_less c acc"
  using assms
proof (induction xs arbitrary: acc)
  case Nil
  then show ?case by simp
next
  case (Cons x xs)
  from Cons.prems have a: "nonneg_float acc" and x: "nonneg_float x"
    and xs: "\<forall>x \<in> set xs. nonneg_float x" by simp_all
  from np_add_nonneg [OF a x] have s: "nonneg_float (np_add acc x)"
    and ge: "\<not> np_less (np_add acc x) acc" by simp_all
  from Cons.IH [OF s xs]
  have "\<forall>c \<in> set (cumsum_from (np_add acc x) xs). nonneg_float c \<and> \<not> np_less c (np_add acc x)" .
  with ge have "\<forall>c \<in> set (cumsum_from (np_add acc x) xs). nonneg_float c \<and> \<not> np_less c acc"
    by (metis np_le_trans)
  with s ge show ?case by simp
qed

lemma cumsum_from_sorted:
  assumes "nonneg_float acc" and "\<forall>x \<in> set xs. nonneg_float x"
  shows "sorted_wrt (\<lambda>a b. \<not> np_less b a) (acc # cumsum_from acc xs)"
  using assms
proof (induction xs arbitrary: acc)
  case Nil
  then show ?case by simp
next
  case (Cons x xs)
  from Cons.prems have a: "nonneg_float acc" and x: "nonneg_float x"
    and xs: "\<forall>x \<in> set xs. nonneg_float x" by simp_all
  from np_add_nonneg [OF a x] have s: "nonneg_float (np_add acc x)" by simp
  from Cons.IH [OF s xs]
  have "sorted_wrt (\<lambda>a b. \<not> np_less b a) (np_add acc x # cumsum_from (np_add acc x) xs)" .
  moreover from cumsum_from_nonneg [OF Cons.prems]
  have "\<forall>c \<in> set (cumsum_from acc (x # xs)). \<not> np_less c acc" by simp
  ultimately show ?case by simp
qed

lemma np_cumsum_length: "length (np_cumsum ws) = length ws"
  by (cases ws) (simp_all add: np_cumsum_def cumsum_from_length)

lemma np_cumsum_0: "ws \<noteq> [] \<Longrightarrow> np_cumsum ws ! 0 = rnd (ws ! 0)"
  by (cases ws) (simp_all add: np_cumsum_def)

lemma np_cumsum_Suc:
  assumes "Suc k < length ws"
  shows "np_cumsum ws ! Suc k = np_add (np_cumsum ws ! k) (rnd (ws ! Suc k))"
proof (cases ws)
  case Nil
  with assms show ?thesis by simp
next
  case (Cons w ws')
  with assms have k: "k < length (map rnd ws')" by simp
  from cumsum_from_nth [OF k, of "rnd w"] Cons k show ?thesis
    by (simp add: np_cumsum_def)
qed

lemma map_rnd_nonneg: "\<forall>w \<in> set ws. 0 \<le> w \<Longrightarrow> \<forall>x \<in> set (map rnd ws). nonneg_float x"
  by (simp add: rnd_nonneg)

lemma np_cumsum_nonneg:
  assumes "\<forall>w \<in> set ws. 0 \<le> w"
  shows "\<forall>c \<in> set (np_cumsum ws). nonneg_float c"
proof (cases ws)
  case Nil
  then show ?thesis by (simp add: np_cumsum_def)
next
  case (Cons w ws')
  with assms have a: "nonneg_float (rnd w)" and r: "\<forall>x \<in> set (map rnd ws'). nonneg_float x"
    by (simp_all add: rnd_nonneg)
  from cumsum_from_nonneg [OF a r] a Cons show ?thesis by (simp add: np_cumsum_def)
qed

lemma np_cumsum_sorted:
  assumes nn: "\<forall>w \<in> set ws. 0 \<le> w" and ij: "i \<le> j" and j: "j < length ws"
  shows "\<not> np_less (np_cumsum ws ! j) (np_cumsum ws ! i)"
proof (cases ws)
  case Nil
  with j show ?thesis by simp
next
  case (Cons w ws')
  with nn have a: "nonneg_float (rnd w)" and r: "\<forall>x \<in> set (map rnd ws'). nonneg_float x"
    by (simp_all add: rnd_nonneg)
  from cumsum_from_sorted [OF a r] Cons
  have srt: "sorted_wrt (\<lambda>a b. \<not> np_less b a) (np_cumsum ws)" by (simp add: np_cumsum_def)
  show ?thesis
  proof (cases "i = j")
    case True
    then show ?thesis by (simp add: np_less_irrefl)
  next
    case False
    with ij have "i < j" by simp
    from sorted_wrt_nth_less [OF srt this] j show ?thesis by (simp add: np_cumsum_length)
  qed
qed

lemma foldl_np_add_closed:
  assumes cl: "\<And>a b. P a \<Longrightarrow> P b \<Longrightarrow> P (np_add a b)"
    and "P acc" and "\<forall>x \<in> set xs. P x"
  shows "P (foldl np_add acc xs)"
  using assms(2,3) by (induction xs arbitrary: acc) (simp_all add: cl)

lemma map2_np_add_closed:
  assumes cl: "\<And>a b. P a \<Longrightarrow> P b \<Longrightarrow> P (np_add a b)"
    and "\<forall>x \<in> set r. P x" and "\<forall>x \<in> set b. P x"
  shows "\<forall>x \<in> set (map2 np_add r b). P x"
  using assms(2,3) by (auto intro!: cl dest: set_zip_leftD set_zip_rightD)

lemma add_blocks_closed:
  assumes cl: "\<And>a b. P a \<Longrightarrow> P b \<Longrightarrow> P (np_add a b)"
    and "\<forall>x \<in> set r. P x" and "\<forall>x \<in> set xs. P x" and "length r = 8"
    and "add_blocks r xs = (r', rest)"
  shows "(\<forall>x \<in> set r'. P x) \<and> (\<forall>x \<in> set rest. P x) \<and> length r' = 8 \<and> length rest < 8"
  using assms(2-)
proof (induction r xs rule: add_blocks.induct)
  case (1 r xs)
  show ?case
  proof (cases "8 \<le> length xs")
    case True
    let ?r1 = "map2 np_add r (take 8 xs)"
    from "1.prems"(2) have t: "\<forall>x \<in> set (take 8 xs). P x" and d: "\<forall>x \<in> set (drop 8 xs). P x"
      by (auto dest: in_set_takeD in_set_dropD)
    from map2_np_add_closed [of P, OF cl "1.prems"(1) t] have p1: "\<forall>x \<in> set ?r1. P x" .
    from True "1.prems"(3) have l1: "length ?r1 = 8" by simp
    from True "1.prems"(4) have "add_blocks ?r1 (drop 8 xs) = (r', rest)"
      by (subst (asm) add_blocks.simps) simp
    from "1.IH" [OF True p1 d l1 this] show ?thesis .
  next
    case False
    with "1.prems"(4) have "r' = r" "rest = xs" by (subst (asm) add_blocks.simps, simp)+
    with "1.prems" False show ?thesis by simp
  qed
qed

lemma nth8_mem: "length r = 8 \<Longrightarrow> r ! 0 \<in> set r \<and> r ! 1 \<in> set r \<and> r ! 2 \<in> set r \<and>
    r ! 3 \<in> set r \<and> r ! 4 \<in> set r \<and> r ! 5 \<in> set r \<and> r ! 6 \<in> set r \<and> r ! 7 \<in> set r"
  by simp

lemma add8_closed:
  assumes cl: "\<And>a b. P a \<Longrightarrow> P b \<Longrightarrow> P (np_add a b)"
    and "\<forall>x \<in> set r. P x" and "length r = 8"
  shows "P (add8 r)"
  unfolding add8_def using nth8_mem [OF assms(3)] assms(2) by (intro cl) blast+

lemma pairwise_sum_closed:
  assumes cl: "\<And>a b. P a \<Longrightarrow> P b \<Longrightarrow> P (np_add a b)"
    and z: "P (Fin 0)" and "\<forall>x \<in> set a. P x"
  shows "P (pairwise_sum a)"
  using assms(3)
proof (induction a rule: pairwise_sum.induct)
  case (1 a)
  let ?n2 = "length a div 2 - length a div 2 mod 8"
  show ?case
  proof (cases "length a < 8")
    case True
    with foldl_np_add_closed [of P, OF cl z "1.prems"] show ?thesis
      by (subst pairwise_sum.simps) simp
  next
    case False
    show ?thesis
    proof (cases "length a \<le> 128")
      case le: True
      obtain r' rest where ab: "add_blocks (take 8 a) (drop 8 a) = (r', rest)"
        by (cases "add_blocks (take 8 a) (drop 8 a)")
      from "1.prems" have t: "\<forall>x \<in> set (take 8 a). P x" and d: "\<forall>x \<in> set (drop 8 a). P x"
        by (auto dest: in_set_takeD in_set_dropD)
      from False have l: "length (take 8 a) = 8" by simp
      from add_blocks_closed [of P, OF cl t d l ab]
      have r': "\<forall>x \<in> set r'. P x" and rest: "\<forall>x \<in> set rest. P x" and l': "length r' = 8"
        by simp_all
      from add8_closed [of P, OF cl r' l'] have "P (add8 r')" .
      from foldl_np_add_closed [of P, OF cl this rest] False le ab show ?thesis
        by (subst pairwise_sum.simps) simp
    next
      case gt: False
      from "1.prems" have t: "\<forall>x \<in> set (take ?n2 a). P x" and d: "\<forall>x \<in> set (drop ?n2 a). P x"
        by (auto dest: in_set_takeD in_set_dropD)
      from "1.IH"(1) [OF False gt t] "1.IH"(2) [OF False gt d] False gt show ?thesis
        by (subst pairwise_sum.simps) (simp add: cl)
    qed
  qed
qed

lemma nonneg_closed: "nonneg_float a \<Longrightarrow> nonneg_float b \<Longrightarrow> nonneg_float (np_add a b)"
  by (rule np_add_nonneg)

lemma foldl_np_add_cover:
  assumes "nonneg_float acc" and "\<forall>y \<in> set xs. nonneg_float y"
    and "\<not> np_less acc x \<or> x \<in> set xs"
  shows "\<not> np_less (foldl np_add acc xs) x"
  using assms
proof (induction xs arbitrary: acc)
  case Nil
  then show ?case by simp
next
  case (Cons y ys)
  from Cons.prems have a: "nonneg_float acc" and y: "nonneg_float y"
    and ys: "\<forall>y \<in> set ys. nonneg_float y" by simp_all
  note s = np_add_nonneg [OF a y]
  from Cons.prems(3) consider "\<not> np_less acc x" | "x = y" | "x \<in> set ys" by auto
  then have "\<not> np_less (np_add acc y) x \<or> x \<in> set ys"
  proof cases
    case 1
    from np_le_trans [OF this s(2)] show ?thesis by simp
  next
    case 2
    with s(3) show ?thesis by simp
  next
    case 3
    then show ?thesis by simp
  qed
  from Cons.IH [OF s(1) ys this] show ?case by simp
qed

lemma map2_np_add_cover:
  assumes r: "\<forall>y \<in> set r. nonneg_float y" and b: "\<forall>y \<in> set b. nonneg_float y"
    and l: "length r = length b"
    and x: "(\<exists>y \<in> set r. \<not> np_less y x) \<or> x \<in> set b"
  shows "\<exists>y \<in> set (map2 np_add r b). \<not> np_less y x"
proof -
  have step: "\<exists>y \<in> set (map2 np_add r b). \<not> np_less y x"
    if i: "i < length r" and c: "\<not> np_less (r ! i) x \<or> x = b ! i" for i
  proof -
    from i l r b have "nonneg_float (r ! i)" "nonneg_float (b ! i)" by simp_all
    note s = np_add_nonneg [OF this]
    from c have "\<not> np_less (np_add (r ! i) (b ! i)) x"
    proof
      assume "\<not> np_less (r ! i) x"
      from np_le_trans [OF this s(2)] show ?thesis .
    next
      assume "x = b ! i"
      with s(3) show ?thesis by simp
    qed
    then have c': "\<not> np_less (map2 np_add r b ! i) x" using i l by simp
    from i l have "map2 np_add r b ! i \<in> set (map2 np_add r b)" by (intro nth_mem) simp
    with c' show ?thesis by (rule bexI)
  qed
  from x show ?thesis
  proof
    assume "\<exists>y \<in> set r. \<not> np_less y x"
    then obtain i where "i < length r" "\<not> np_less (r ! i) x" by (auto simp: in_set_conv_nth)
    then show ?thesis by (intro step [of i]) simp_all
  next
    assume "x \<in> set b"
    then obtain i where "i < length b" "x = b ! i" by (auto simp: in_set_conv_nth)
    with l show ?thesis by (intro step [of i]) simp_all
  qed
qed

lemma add_blocks_cover:
  assumes "\<forall>y \<in> set r. nonneg_float y" and "\<forall>y \<in> set xs. nonneg_float y" and "length r = 8"
    and "add_blocks r xs = (r', rest)"
    and "(\<exists>y \<in> set r. \<not> np_less y x) \<or> x \<in> set xs"
  shows "(\<exists>y \<in> set r'. \<not> np_less y x) \<or> x \<in> set rest"
  using assms
proof (induction r xs rule: add_blocks.induct)
  case (1 r xs)
  show ?case
  proof (cases "8 \<le> length xs")
    case True
    let ?r1 = "map2 np_add r (take 8 xs)"
    from "1.prems"(2) have t: "\<forall>y \<in> set (take 8 xs). nonneg_float y"
      and d: "\<forall>y \<in> set (drop 8 xs). nonneg_float y"
      by (auto dest: in_set_takeD in_set_dropD)
    from map2_np_add_closed [of nonneg_float, OF nonneg_closed "1.prems"(1) t]
    have p1: "\<forall>y \<in> set ?r1. nonneg_float y" .
    from True "1.prems"(3) have l1: "length ?r1 = 8" and lt: "length r = length (take 8 xs)"
      by simp_all
    from True "1.prems"(4) have ab: "add_blocks ?r1 (drop 8 xs) = (r', rest)"
      by (subst (asm) add_blocks.simps) simp
    have "set xs = set (take 8 xs) \<union> set (drop 8 xs)"
      using set_append [of "take 8 xs" "drop 8 xs"] by simp
    with "1.prems"(5)
    have "((\<exists>y \<in> set r. \<not> np_less y x) \<or> x \<in> set (take 8 xs)) \<or> x \<in> set (drop 8 xs)"
      by blast
    then have "(\<exists>y \<in> set ?r1. \<not> np_less y x) \<or> x \<in> set (drop 8 xs)"
      using map2_np_add_cover [OF "1.prems"(1) t lt] by blast
    from "1.IH" [OF True p1 d l1 ab this] show ?thesis .
  next
    case False
    with "1.prems"(4) have "r' = r" "rest = xs" by (subst (asm) add_blocks.simps, simp)+
    with "1.prems"(5) show ?thesis by simp
  qed
qed

lemma add8_cover:
  assumes r: "\<forall>y \<in> set r. nonneg_float y" and l: "length r = 8" and y: "y \<in> set r"
  shows "\<not> np_less (add8 r) y"
proof -
  from nth8_mem [OF l] r
  have n: "nonneg_float (r ! 0)" "nonneg_float (r ! 1)" "nonneg_float (r ! 2)" "nonneg_float (r ! 3)"
    "nonneg_float (r ! 4)" "nonneg_float (r ! 5)" "nonneg_float (r ! 6)" "nonneg_float (r ! 7)"
    by blast+
  note a = np_add_nonneg [OF n(1) n(2)] and b = np_add_nonneg [OF n(3) n(4)]
    and c = np_add_nonneg [OF n(5) n(6)] and d = np_add_nonneg [OF n(7) n(8)]
  note ab = np_add_nonneg [OF a(1) b(1)] and cd = np_add_nonneg [OF c(1) d(1)]
  note top = np_add_nonneg [OF ab(1) cd(1)]
  from y obtain i where i: "i < 8" and yi: "y = r ! i" using l by (auto simp: in_set_conv_nth)
  from i consider (a0) "i = 0" | (a1) "i = 1" | (b0) "i = 2" | (b1) "i = 3"
    | (c0) "i = 4" | (c1) "i = 5" | (d0) "i = 6" | (d1) "i = 7"
    by linarith
  then have "\<not> np_less (np_add (np_add (np_add (r ! 0) (r ! 1)) (np_add (r ! 2) (r ! 3)))
            (np_add (np_add (r ! 4) (r ! 5)) (np_add (r ! 6) (r ! 7)))) (r ! i)"
  proof cases
    case a0 with np_le_trans [OF np_le_trans [OF a(2) ab(2)] top(2)] show ?thesis by simp
  next
    case a1 with np_le_trans [OF np_le_trans [OF a(3) ab(2)] top(2)] show ?thesis by simp
  next
    case b0 with np_le_trans [OF np_le_trans [OF b(2) ab(3)] top(2)] show ?thesis by simp
  next
    case b1 with np_le_trans [OF np_le_trans [OF b(3) ab(3)] top(2)] show ?thesis by simp
  next
    case c0 with np_le_trans [OF np_le_trans [OF c(2) cd(2)] top(3)] show ?thesis by simp
  next
    case c1 with np_le_trans [OF np_le_trans [OF c(3) cd(2)] top(3)] show ?thesis by simp
  next
    case d0 with np_le_trans [OF np_le_trans [OF d(2) cd(3)] top(3)] show ?thesis by simp
  next
    case d1 with np_le_trans [OF np_le_trans [OF d(3) cd(3)] top(3)] show ?thesis by simp
  qed
  with yi show ?thesis by (simp add: add8_def)
qed

lemma pairwise_sum_nonneg:
  "\<forall>y \<in> set a. nonneg_float y \<Longrightarrow> nonneg_float (pairwise_sum a)"
  by (rule pairwise_sum_closed [of nonneg_float, OF nonneg_closed nonneg_float_zero])

lemma pairwise_sum_cover:
  assumes "\<forall>y \<in> set a. nonneg_float y" and "x \<in> set a"
  shows "\<not> np_less (pairwise_sum a) x"
  using assms
proof (induction a rule: pairwise_sum.induct)
  case (1 a)
  let ?n2 = "length a div 2 - length a div 2 mod 8"
  show ?case
  proof (cases "length a < 8")
    case True
    from foldl_np_add_cover [OF nonneg_float_zero "1.prems"(1), of x] "1.prems"(2) True
    show ?thesis by (subst pairwise_sum.simps) simp
  next
    case False
    show ?thesis
    proof (cases "length a \<le> 128")
      case le: True
      obtain r' rest where ab: "add_blocks (take 8 a) (drop 8 a) = (r', rest)"
        by (cases "add_blocks (take 8 a) (drop 8 a)")
      from "1.prems"(1) have t: "\<forall>y \<in> set (take 8 a). nonneg_float y"
        and d: "\<forall>y \<in> set (drop 8 a). nonneg_float y"
        by (auto dest: in_set_takeD in_set_dropD)
      from False have l: "length (take 8 a) = 8" by simp
      from add_blocks_closed [of nonneg_float, OF nonneg_closed t d l ab]
      have r': "\<forall>y \<in> set r'. nonneg_float y" and rest: "\<forall>y \<in> set rest. nonneg_float y"
        and l': "length r' = 8" by simp_all
      have "set a = set (take 8 a) \<union> set (drop 8 a)"
        using set_append [of "take 8 a" "drop 8 a"] by simp
      with "1.prems"(2) have "(\<exists>y \<in> set (take 8 a). \<not> np_less y x) \<or> x \<in> set (drop 8 a)"
        using np_less_irrefl [of x] by blast
      from add_blocks_cover [OF t d l ab this]
      have "(\<exists>y \<in> set r'. \<not> np_less y x) \<or> x \<in> set rest" .
      then have "\<not> np_less (add8 r') x \<or> x \<in> set rest"
      proof
        assume "\<exists>y \<in> set r'. \<not> np_less y x"
        then obtain y where y: "y \<in> set r'" "\<not> np_less y x" by blast
        from np_le_trans [OF y(2) add8_cover [OF r' l' y(1)]] show ?thesis by simp
      next
        assume "x \<in> set rest"
        then show ?thesis by simp
      qed
      from foldl_np_add_cover [OF add8_closed [of nonneg_float, OF nonneg_closed r' l'] rest this]
        False le ab
      show ?thesis by (subst pairwise_sum.simps) simp
    next
      case gt: False
      from "1.prems"(1) have t: "\<forall>y \<in> set (take ?n2 a). nonneg_float y"
        and d: "\<forall>y \<in> set (drop ?n2 a). nonneg_float y"
        by (auto dest: in_set_takeD in_set_dropD)
      note s = np_add_nonneg [OF pairwise_sum_nonneg [OF t] pairwise_sum_nonneg [OF d]]
      have "set a = set (take ?n2 a) \<union> set (drop ?n2 a)"
        using set_append [of "take ?n2 a" "drop ?n2 a"] by simp
      with "1.prems"(2) consider "x \<in> set (take ?n2 a)" | "x \<in> set (drop ?n2 a)" by blast
      then have "\<not> np_less (np_add (pairwise_sum (take ?n2 a)) (pairwise_sum (drop ?n2 a))) x"
      proof cases
        case 1
        from np_le_trans [OF "1.IH"(1) [OF False gt t 1] s(2)] show ?thesis .
      next
        case 2
        from np_le_trans [OF "1.IH"(2) [OF False gt d 2] s(3)] show ?thesis .
      qed
      with False gt show ?thesis by (subst pairwise_sum.simps) simp
    qed
  qed
qed

lemma np_sum_eq:
  "\<forall>w \<in> set ws. 0 \<le> w \<Longrightarrow> np_sum ws = pairwise_sum (map rnd ws)"
  by (simp add: np_sum_def np_add_zero_left pairwise_sum_nonneg rnd_nonneg)

lemma np_sum_nonneg: "\<forall>w \<in> set ws. 0 \<le> w \<Longrightarrow> nonneg_float (np_sum ws)"
  by (simp add: np_sum_eq pairwise_sum_nonneg rnd_nonneg)

lemma np_sum_cover:
  "\<forall>w \<in> set ws. 0 \<le> w \<Longrightarrow> w \<in> set ws \<Longrightarrow> \<not> np_less (np_sum ws) (rnd w)"
  by (simp add: np_sum_eq pairwise_sum_cover rnd_nonneg)

lemma np_sum_zeros:
  assumes "\<forall>w \<in> set ws. w = 0"
  shows "np_sum ws = Fin 0"
proof -
  from assms have z: "\<forall>x \<in> set (map rnd ws). x = Fin 0" by (auto simp: rnd_zero)
  have "pairwise_sum (map rnd ws) = Fin 0"
    by (rule pairwise_sum_closed [where P = "\<lambda>a. a = Fin 0"]) (simp_all add: rnd_zero z)
  then show ?thesis by (simp add: np_sum_def rnd_zero)
qed

lemma wc_length: "length (wc ws) = length ws"
  by (simp add: wc_def np_cumsum_length)

lemma wc_nth: "i < length ws \<Longrightarrow> wc ws ! i = np_divide (np_cumsum ws ! i) (np_sum ws)"
  by (simp add: wc_def np_cumsum_length)

lemma rnd_not_nan: "rnd x \<noteq> NaN"
  by (simp add: rnd_def)

lemma np_divide_mono:
  assumes a: "nonneg_float a" and b: "nonneg_float b" and s: "nonneg_float s"
    and s0: "s \<noteq> Fin 0" and ab: "\<not> np_less b a"
  shows "\<not> np_less (np_divide b s) (np_divide a s)"
  using s
proof (cases rule: nonneg_float_cases)
  case inf
  with a b ab show ?thesis
    by (cases a; cases b) (simp_all add: nonneg_float_def)
next
  case (fin d)
  with s0 have d: "0 < d" by simp
  show ?thesis
    using a
  proof (cases rule: nonneg_float_cases)
    case inf
    with b ab fin d show ?thesis by (cases b) (simp_all add: nonneg_float_def)
  next
    case fa: (fin x)
    show ?thesis
      using b
    proof (cases rule: nonneg_float_cases)
      case inf
      with fa fin d rnd_not_nan [of "x / d"] show ?thesis by (cases "rnd (x / d)") simp_all
    next
      case fb: (fin y)
      with fa ab have "x \<le> y" by simp
      with d fa have "0 \<le> x / d" "x / d \<le> y / d" by (simp_all add: divide_right_mono)
      from rnd_mono [OF this] fa fb fin d show ?thesis by simp
    qed
  qed
qed

lemma np_cumsum_closed:
  assumes cl: "\<And>a b. P a \<Longrightarrow> P b \<Longrightarrow> P (np_add a b)" and "\<forall>w \<in> set ws. P (rnd w)"
  shows "\<forall>c \<in> set (np_cumsum ws). P c"
proof -
  have step: "\<forall>c \<in> set (cumsum_from acc xs). P c" if "P acc" "\<forall>x \<in> set xs. P x" for acc xs
    using that by (induction xs arbitrary: acc) (auto intro: cl)
  show ?thesis
  proof (cases ws)
    case Nil
    then show ?thesis by (simp add: np_cumsum_def)
  next
    case (Cons w ws')
    with assms(2) have a: "P (rnd w)" and r: "\<forall>x \<in> set (map rnd ws'). P x" by simp_all
    from step [OF a r] a Cons show ?thesis by (simp add: np_cumsum_def)
  qed
qed

lemma total_zero_weights:
  assumes nn: "\<forall>w \<in> set ws. 0 \<le> w" and z: "np_sum ws = Fin 0" and w: "w \<in> set ws"
  shows "rnd w = Fin 0"
proof -
  from nn w have "nonneg_float (rnd w)" by (simp add: rnd_nonneg)
  moreover from np_sum_cover [OF nn w] z have "\<not> np_less (Fin 0) (rnd w)" by simp
  ultimately show ?thesis by (cases "rnd w") (auto simp: nonneg_float_def)
qed

lemma wc_sorted:
  assumes nn: "\<forall>w \<in> set ws. 0 \<le> w" and ij: "i \<le> j" and j: "j < length (wc ws)"
  shows "\<not> np_less (wc ws ! j) (wc ws ! i)"
proof -
  from j have j': "j < length ws" by (simp add: wc_length)
  with ij have i': "i < length ws" by simp
  from i' j' have mi: "np_cumsum ws ! i \<in> set (np_cumsum ws)" and mj: "np_cumsum ws ! j \<in> set (np_cumsum ws)"
    by (simp_all add: np_cumsum_length)
  show ?thesis
  proof (cases "np_sum ws = Fin 0")
    case True
    have "\<forall>c \<in> set (np_cumsum ws). c = Fin 0"
      by (rule np_cumsum_closed [where P = "\<lambda>a. a = Fin 0"])
        (simp_all add: rnd_zero total_zero_weights [OF nn True])
    with mi mj have "np_cumsum ws ! i = Fin 0" "np_cumsum ws ! j = Fin 0" by blast+
    with True i' j' show ?thesis by (simp add: wc_nth)
  next
    case False
    from np_cumsum_nonneg [OF nn] mi mj
    have a: "nonneg_float (np_cumsum ws ! i)" and b: "nonneg_float (np_cumsum ws ! j)" by simp_all
    from np_divide_mono [OF a b np_sum_nonneg [OF nn] False np_cumsum_sorted [OF nn ij j']] i' j'
    show ?thesis by (simp add: wc_nth)
  qed
qed

lemma valid_weights_nonneg: "valid_weights ws \<Longrightarrow> \<forall>w \<in> set ws. 0 \<le> w"
  by (simp add: valid_weights_def list_all_iff)

lemma valid_weights_no_negative: "valid_weights ws \<Longrightarrow> \<not> list_ex (\<lambda>x. x < 0) ws"
  unfolding valid_weights_def list_all_iff list_ex_iff by (auto simp: not_less)

lemma valid_total_nonzero:
  assumes v: "valid_weights ws" and f: "list_all float64 ws"
  shows "np_sum ws \<noteq> Fin 0"
proof
  assume z: "np_sum ws = Fin 0"
  from v obtain w where w: "w \<in> set ws" "0 < w" by (auto simp: valid_weights_def list_ex_iff)
  with f have "rnd w = Fin w" by (simp add: list_all_iff float64_def)
  with total_zero_weights [OF valid_weights_nonneg [OF v] z w(1)] w(2) show False by simp
qed

lemma zero_over_total:
  assumes v: "valid_weights ws" and f: "list_all float64 ws"
  shows "np_divide (Fin 0) (np_sum ws) = Fin 0"
  using np_sum_nonneg [OF valid_weights_nonneg [OF v]]
proof (cases rule: nonneg_float_cases)
  case (fin d)
  with valid_total_nonzero [OF v f] show ?thesis by (simp add: rnd_zero)
next
  case inf
  then show ?thesis by simp
qed

lemma wc_first_zero:
  assumes v: "valid_weights ws" and f: "list_all float64 ws" and z: "ws ! 0 = 0"
  shows "wc ws ! 0 = Fin 0"
proof -
  from v have ne: "ws \<noteq> []" by (simp add: valid_weights_def)
  then have "0 < length ws" by simp
  from wc_nth [OF this] np_cumsum_0 [OF ne] z zero_over_total [OF v f]
  show ?thesis by (simp add: rnd_zero)
qed

lemma wc_zero_weight_repeats:
  assumes nn: "\<forall>w \<in> set ws. 0 \<le> w" and k: "Suc k < length ws" and z: "ws ! Suc k = 0"
  shows "wc ws ! Suc k = wc ws ! k"
proof -
  from k have "np_cumsum ws ! k \<in> set (np_cumsum ws)" by (simp add: np_cumsum_length)
  with np_cumsum_nonneg [OF nn] have "nonneg_float (np_cumsum ws ! k)" by simp
  with np_cumsum_Suc [OF k] z have "np_cumsum ws ! Suc k = np_cumsum ws ! k"
    by (simp add: rnd_zero np_add_zero_right)
  with k show ?thesis by (simp add: wc_nth)
qed

subsection \<open>Checking a rounding\<close>

lemma ulp_exponent_cert:
  assumes "0 < x" "2 powi k \<le> x" "x < 2 powi (k + 1)"
  shows "ulp_exponent x = max (k - 52) (- 1074)"
  using ilog2_unique [OF assms] assms(1) by (simp add: ulp_exponent_def)

lemma rnd_fin_cert:
  assumes x: "0 < x" and y: "round_to_ulp x = y" and b: "y < 2 ^ 1024"
  shows "rnd x = Fin y"
proof -
  from x have "0 \<le> round_to_ulp x" by (intro rtu_nonneg) simp
  with y b show ?thesis by (simp add: rnd_def)
qed

text \<open>Checking a rounding: \<open>k\<close> is the leading bit of \<open>x\<close>, \<open>e\<close> the last place and
  \<open>m\<close> the nearest multiple.\<close>

lemma rnd_near:
  assumes x: "0 < x" and lo: "2 powi k \<le> x" and hi: "x < 2 powi (k + 1)"
    and e: "e = max (k - 52) (- 1074)"
    and m: "\<bar>x / 2 powi e - of_int m\<bar> < 1 / 2"
    and y: "y = of_int m * 2 powi e" and b: "y < 2 ^ 1024"
  shows "rnd x = Fin y"
proof -
  from ulp_exponent_cert [OF x lo hi] e have "ulp_exponent x = e" by simp
  with rhe_near [OF m] y have "round_to_ulp x = y" by (simp add: round_to_ulp_def)
  from rnd_fin_cert [OF x this b] show ?thesis .
qed

lemma rnd_tie:
  assumes x: "0 < x" and lo: "2 powi k \<le> x" and hi: "x < 2 powi (k + 1)"
    and e: "e = max (k - 52) (- 1074)"
    and m: "x / 2 powi e = of_int m + 1 / 2 \<or> x / 2 powi e = of_int m - 1 / 2" and ev: "even m"
    and y: "y = of_int m * 2 powi e" and b: "y < 2 ^ 1024"
  shows "rnd x = Fin y"
proof -
  from ulp_exponent_cert [OF x lo hi] e have "ulp_exponent x = e" by simp
  moreover from m ev have "round_half_even (x / 2 powi e) = m"
    by (auto intro: rhe_tie_down rhe_tie_up)
  ultimately have "round_to_ulp x = y" using y by (simp add: round_to_ulp_def)
  from rnd_fin_cert [OF x this b] show ?thesis .
qed

lemma rtu_exact:
  assumes x: "0 < x" and lo: "2 powi k \<le> x" and hi: "x < 2 powi (k + 1)"
    and e: "max (k - 52) (- 1074) \<le> e" and m: "x = of_int m * 2 powi e"
  shows "round_to_ulp x = x"
  using m ulp_exponent_cert [OF x lo hi] e by (intro rtu_fix [where m = m and e = e]) simp_all

lemma rnd_exact:
  assumes x: "0 < x" and lo: "2 powi k \<le> x" and hi: "x < 2 powi (k + 1)"
    and e: "max (k - 52) (- 1074) \<le> e" and m: "x = of_int m * 2 powi e" and b: "x < 2 ^ 1024"
  shows "rnd x = Fin x"
  by (rule rnd_fin_cert [OF x rtu_exact [OF x lo hi e m] b])

lemma rnd_overflow:
  assumes x: "0 < x" and lo: "2 powi k \<le> x" and hi: "x < 2 powi (k + 1)"
    and e: "max (k - 52) (- 1074) \<le> e" and m: "x = of_int m * 2 powi e" and b: "2 ^ 1024 \<le> x"
  shows "rnd x = PInf"
  using rtu_exact [OF x lo hi e m] b by (simp add: rnd_def)

lemma rnd_int:
  assumes "0 \<le> m" "m < 2 ^ 53"
  shows "rnd (of_int m) = Fin (of_int m)"
proof (cases "m = 0")
  case True
  then show ?thesis by (simp add: rnd_zero)
next
  case False
  let ?x = "of_int m :: rat"
  from False assms have x: "0 < ?x" by simp
  have "ilog2 ?x < 53"
  proof (rule ccontr)
    assume "\<not> ?thesis"
    then have "(2::rat) powi 53 \<le> 2 powi (ilog2 ?x)" by (intro two_powi_le) simp
    with ilog2_bounds [OF x] have "(2::rat) ^ 53 \<le> of_int m" by simp
    then have "(of_int (2 ^ 53) :: rat) \<le> of_int m" by simp
    then have "2 ^ 53 \<le> m" by (simp only: of_int_le_iff)
    with assms show False by simp
  qed
  with x have "ulp_exponent ?x \<le> 0" by (simp add: ulp_exponent_def)
  then have "round_to_ulp ?x = ?x" by (intro rtu_fix [where m = m and e = 0]) simp_all
  moreover have "?x < 2 ^ 1024"
  proof -
    from assms have "?x < of_int (2 ^ 53)" by (simp only: of_int_less_iff)
    also have "\<dots> \<le> 2 ^ 1024" by simp
    finally show ?thesis .
  qed
  ultimately show ?thesis using x by (intro rnd_fin_cert) simp_all
qed

subsection \<open>Which index a draw selects\<close>

lemma sample_draws:
  "\<not> list_ex (\<lambda>x. x < 0) ws \<Longrightarrow> 0 \<le> n \<Longrightarrow>
   weightedRandomSample n ws w =
     (Inr (RetSample (searchsorted (wc ws) (stake (nat n) (rng w))) (stake (nat n) (rng w))),
      w\<lparr>rng := sdrop (nat n) (rng w)\<rparr>)"
  by (simp add: weightedRandomSample_def random_sample_def)

lemma searchsorted_length: "length (searchsorted a vs) = length vs"
  by (simp add: searchsorted_def)

lemma searchsorted_nth:
  "i < length vs \<Longrightarrow> searchsorted a vs ! i = bsearch_left a (Fin (vs ! i)) 0 (length a)"
  by (simp add: searchsorted_def)

lemma pick_before:
  assumes nn: "\<forall>w \<in> set ws. 0 \<le> w" and k: "k < bsearch_left (wc ws) key 0 (length (wc ws))"
  shows "k < length ws \<and> np_less (wc ws ! k) key"
proof -
  have srt: "\<And>i j. i \<le> j \<Longrightarrow> j < length (wc ws) \<Longrightarrow> \<not> np_less (wc ws ! j) (wc ws ! i)"
    by (rule wc_sorted [OF nn])
  from searchsorted_first(1) [of "wc ws" key, OF srt] k
  have "k < length ws" by (simp add: wc_length)
  moreover from searchsorted_first(3) [of "wc ws" k key, OF srt k]
  have "np_less (wc ws ! k) key" .
  ultimately show ?thesis by simp
qed

lemma pick_le_length: "bsearch_left (wc ws) key 0 (length (wc ws)) \<le> length ws"
  using bsearch_left_bounds [of 0 "length (wc ws)" "wc ws" key] by (simp add: wc_length)

lemma pick_stop:
  assumes "bsearch_left (wc ws) key 0 (length (wc ws)) < length ws"
  shows "\<not> np_less (wc ws ! bsearch_left (wc ws) key 0 (length (wc ws))) key"
  using bsearch_left_stop [of 0 "length (wc ws)" "wc ws" key] assms by (simp add: wc_length)

lemma pick_le:
  assumes nn: "\<forall>w \<in> set ws. 0 \<le> w" and k: "\<not> np_less (wc ws ! k) key"
  shows "bsearch_left (wc ws) key 0 (length (wc ws)) \<le> k"
proof (rule ccontr)
  assume "\<not> ?thesis"
  then have "k < bsearch_left (wc ws) key 0 (length (wc ws))" by simp
  from pick_before [OF nn this] k show False by simp
qed

lemma pick_past_end:
  assumes nn: "\<forall>w \<in> set ws. 0 \<le> w" and ne: "ws \<noteq> []"
    and l: "np_less (wc ws ! (length ws - 1)) key"
  shows "bsearch_left (wc ws) key 0 (length (wc ws)) = length ws"
proof (rule ccontr)
  let ?r = "bsearch_left (wc ws) key 0 (length (wc ws))"
  assume "?r \<noteq> length ws"
  with pick_le_length [of ws key] have r: "?r < length ws" by simp
  then have "?r \<le> length ws - 1" "length ws - 1 < length (wc ws)" by (simp_all add: wc_length)
  from wc_sorted [OF nn this] have "\<not> np_less (wc ws ! (length ws - 1)) (wc ws ! ?r)" .
  from np_less_trans_le [OF this l] pick_stop [OF r] show False by simp
qed

lemma pick_tie:
  assumes nn: "\<forall>w \<in> set ws. 0 \<le> w" and k: "k < length ws" and eq: "wc ws ! k = key"
  shows "bsearch_left (wc ws) key 0 (length (wc ws)) \<le> k
         \<and> wc ws ! bsearch_left (wc ws) key 0 (length (wc ws)) = key"
proof -
  let ?r = "bsearch_left (wc ws) key 0 (length (wc ws))"
  from eq have "\<not> np_less (wc ws ! k) key" by (simp add: np_less_irrefl)
  from pick_le [OF nn this] have rk: "?r \<le> k" .
  with k have r: "?r < length ws" by simp
  from k have "k < length (wc ws)" by (simp add: wc_length)
  from wc_sorted [OF nn rk this] eq have "\<not> np_less key (wc ws ! ?r)" by simp
  from np_le_antisym [OF pick_stop [OF r] this] rk show ?thesis by simp
qed


lemma pick_zero_weight:
  assumes v: "valid_weights ws" and f: "list_all float64 ws"
    and r: "bsearch_left (wc ws) (Fin t) 0 (length (wc ws)) < length ws"
    and z: "ws ! bsearch_left (wc ws) (Fin t) 0 (length (wc ws)) = 0"
  shows "bsearch_left (wc ws) (Fin t) 0 (length (wc ws)) = 0 \<and> t \<le> 0"
proof -
  let ?r = "bsearch_left (wc ws) (Fin t) 0 (length (wc ws))"
  note nn = valid_weights_nonneg [OF v]
  have r0: "?r = 0"
  proof (cases ?r)
    case 0
    then show ?thesis .
  next
    case (Suc k)
    with r z have "Suc k < length ws" "ws ! Suc k = 0" by simp_all
    from wc_zero_weight_repeats [OF nn this] have "wc ws ! Suc k = wc ws ! k" .
    moreover from Suc have "k < ?r" by simp
    from pick_before [OF nn this] have "np_less (wc ws ! k) (Fin t)" by simp
    moreover from pick_stop [OF r] Suc have "\<not> np_less (wc ws ! Suc k) (Fin t)" by simp
    ultimately show ?thesis by simp
  qed
  with z have "ws ! 0 = 0" by simp
  from wc_first_zero [OF v f this] pick_stop [OF r] r0 have "\<not> 0 < t" by simp
  with r0 show ?thesis by simp
qed

subsection \<open>Evaluated scenarios\<close>

lemma rtu_of_rnd: "rnd x = Fin y \<Longrightarrow> round_to_ulp x = y"
  by (simp add: rnd_def split: if_splits)

lemma rnd_small_ints:
  "rnd 1 = Fin 1" "rnd 2 = Fin 2" "rnd 3 = Fin 3" "rnd 4 = Fin 4" "rnd 6 = Fin 6" "rnd 10 = Fin 10"
  using rnd_int [of 1] rnd_int [of 2] rnd_int [of 3] rnd_int [of 4] rnd_int [of 6] rnd_int [of 10]
  by simp_all

lemma rnd_tenth: "rnd (1 / 10) = Fin (3602879701896397 / 36028797018963968)"
  by (rule rnd_near [where k = "- 4" and e = "- 56" and m = "7205759403792794"]) simp_all

lemma rnd_three_tenths: "rnd (3 / 10) = Fin (5404319552844595 / 18014398509481984)"
  by (rule rnd_near [where k = "- 2" and e = "- 54" and m = "5404319552844595"]) simp_all

lemma rnd_three_fifths: "rnd (3 / 5) = Fin (5404319552844595 / 9007199254740992)"
  by (rule rnd_near [where k = "- 1" and e = "- 53" and m = "5404319552844595"]) simp_all

lemma rnd_005: "rnd (1 / 20) = Fin (3602879701896397 / 72057594037927936)"
  by (rule rnd_near [where k = "- 5" and e = "- 57" and m = "7205759403792794"]) simp_all

lemma rnd_065: "rnd (13 / 20) = Fin (5854679515581645 / 9007199254740992)"
  by (rule rnd_near [where k = "- 1" and e = "- 53" and m = "5854679515581645"]) simp_all

lemma rnd_095: "rnd (19 / 20) = Fin (4278419646001971 / 4503599627370496)"
  by (rule rnd_near [where k = "- 1" and e = "- 53" and m = "8556839292003942"]) simp_all

lemmas scenario_draws = rnd_005 [THEN rtu_of_rnd] rnd_065 [THEN rtu_of_rnd] rnd_095 [THEN rtu_of_rnd]

lemma scenario_cumsum: "np_cumsum [1, 2, 3, 4] = [Fin 1, Fin 3, Fin 6, Fin 10]"
  by (simp add: np_cumsum_def rnd_small_ints)

lemma scenario_sum: "np_sum [1, 2, 3, 4] = Fin 10"
  by (simp add: np_sum_def pairwise_sum.simps rnd_small_ints)

lemma scenario_wc: "wc [1, 2, 3, 4] = [rnd (1 / 10), rnd (3 / 10), rnd (3 / 5), rnd 1]"
  by (simp add: wc_def scenario_cumsum scenario_sum)

lemma scenario_search:
  "searchsorted [Fin (3602879701896397 / 36028797018963968), Fin (5404319552844595 / 18014398509481984), Fin (5404319552844595 / 9007199254740992), Fin 1]
     [3602879701896397 / 72057594037927936, 5854679515581645 / 9007199254740992, 4278419646001971 / 4503599627370496] = [0, 3, 3]"
  by code_simp

lemma scenario_stake: "stake 3 (a ## b ## c ## g) = [a, b, c]"
  by (simp add: eval_nat_numeral)


lemma scenario_sample:
  "fst (weightedRandomSample 3 [1, 2, 3, 4]
     \<lparr>rng = round_to_ulp (1 / 20) ## round_to_ulp (13 / 20) ## round_to_ulp (19 / 20) ## g,
      stdout = out\<rparr>)
   = Inr (RetSample [0, 3, 3]
       [round_to_ulp (1 / 20), round_to_ulp (13 / 20), round_to_ulp (19 / 20)])"
  using scenario_search
  by (simp add: sample_draws scenario_stake scenario_wc scenario_draws
      rnd_tenth rnd_three_tenths rnd_three_fifths rnd_small_ints)

lemma tenths_rnd_1: "rnd (3602879701896397 / 36028797018963968) = Fin (3602879701896397 / 36028797018963968)"
  by (rule rnd_exact [where k = "- 4" and e = "- 56" and m = "7205759403792794"]) simp_all

lemma tenths_rnd_2: "rnd (3602879701896397 / 18014398509481984) = Fin (3602879701896397 / 18014398509481984)"
  by (rule rnd_exact [where k = "- 3" and e = "- 55" and m = "7205759403792794"]) simp_all

lemma tenths_rnd_3: "rnd (10808639105689191 / 36028797018963968) = Fin (1351079888211149 / 4503599627370496)"
  by (rule rnd_tie [where k = "- 2" and e = "- 54" and m = "5404319552844596"]) simp_all

lemma tenths_rnd_4: "rnd (14411518807585589 / 36028797018963968) = Fin (3602879701896397 / 9007199254740992)"
  by (rule rnd_tie [where k = "- 2" and e = "- 54" and m = "7205759403792794"]) simp_all

lemma tenths_rnd_5: "rnd (18014398509481985 / 36028797018963968) = Fin (1 / 2)"
  by (rule rnd_near [where k = "- 1" and e = "- 53" and m = "4503599627370496"]) simp_all

lemma tenths_rnd_6: "rnd (21617278211378381 / 36028797018963968) = Fin (5404319552844595 / 9007199254740992)"
  by (rule rnd_near [where k = "- 1" and e = "- 53" and m = "5404319552844595"]) simp_all

lemma tenths_rnd_7: "rnd (25220157913274777 / 36028797018963968) = Fin (3152519739159347 / 4503599627370496)"
  by (rule rnd_near [where k = "- 1" and e = "- 53" and m = "6305039478318694"]) simp_all

lemma tenths_rnd_8: "rnd (28823037615171173 / 36028797018963968) = Fin (7205759403792793 / 9007199254740992)"
  by (rule rnd_near [where k = "- 1" and e = "- 53" and m = "7205759403792793"]) simp_all

lemma tenths_rnd_9: "rnd (32425917317067569 / 36028797018963968) = Fin (2026619832316723 / 2251799813685248)"
  by (rule rnd_near [where k = "- 1" and e = "- 53" and m = "8106479329266892"]) simp_all

lemma tenths_rnd_10: "rnd (36028797018963965 / 36028797018963968) = Fin (9007199254740991 / 9007199254740992)"
  by (rule rnd_near [where k = "- 1" and e = "- 53" and m = "9007199254740991"]) simp_all

lemma tenths_rnd_11: "rnd (39631676720860361 / 36028797018963968) = Fin (4953959590107545 / 4503599627370496)"
  by (rule rnd_near [where k = "0" and e = "- 52" and m = "4953959590107545"]) simp_all

lemma tenths_rnd_12: "rnd (3602879701896397 / 9007199254740992) = Fin (3602879701896397 / 9007199254740992)"
  by (rule rnd_exact [where k = "- 2" and e = "- 54" and m = "7205759403792794"]) simp_all

lemma tenths_rnd_13: "rnd (3602879701896397 / 4503599627370496) = Fin (3602879701896397 / 4503599627370496)"
  by (rule rnd_exact [where k = "- 1" and e = "- 53" and m = "7205759403792794"]) simp_all

lemma tenths_rnd_14: "rnd (32425917317067573 / 36028797018963968) = Fin (8106479329266893 / 9007199254740992)"
  by (rule rnd_near [where k = "- 1" and e = "- 53" and m = "8106479329266893"]) simp_all

lemma tenths_rnd_15: "rnd (36028797018963969 / 36028797018963968) = Fin (1)"
  by (rule rnd_near [where k = "0" and e = "- 52" and m = "4503599627370496"]) simp_all

lemma tenths_rnd_16: "rnd (39631676720860365 / 36028797018963968) = Fin (2476979795053773 / 2251799813685248)"
  by (rule rnd_near [where k = "0" and e = "- 52" and m = "4953959590107546"]) simp_all

lemma tenths_rnd_17: "rnd (2476979795053773 / 2251799813685248) = Fin (2476979795053773 / 2251799813685248)"
  by (rule rnd_exact [where k = "0" and e = "- 52" and m = "4953959590107546"]) simp_all

lemma tenths_rnd_18: "rnd (4953959590107545 / 4953959590107546) = Fin (4503599627370495 / 4503599627370496)"
  by (rule rnd_near [where k = "- 1" and e = "- 53" and m = "9007199254740990"]) simp_all

lemmas tenths_rnd = tenths_rnd_1 tenths_rnd_2 tenths_rnd_3 tenths_rnd_4 tenths_rnd_5 tenths_rnd_6 tenths_rnd_7 tenths_rnd_8 tenths_rnd_9 tenths_rnd_10 tenths_rnd_11 tenths_rnd_12 tenths_rnd_13 tenths_rnd_14 tenths_rnd_15 tenths_rnd_16 tenths_rnd_17 tenths_rnd_18

lemma tenths_cumsum:
  "np_cumsum (replicate 11 (3602879701896397 / 36028797018963968)) =
     [Fin (3602879701896397 / 36028797018963968),
      Fin (3602879701896397 / 18014398509481984),
      Fin (1351079888211149 / 4503599627370496),
      Fin (3602879701896397 / 9007199254740992),
      Fin (1 / 2),
      Fin (5404319552844595 / 9007199254740992),
      Fin (3152519739159347 / 4503599627370496),
      Fin (7205759403792793 / 9007199254740992),
      Fin (2026619832316723 / 2251799813685248),
      Fin (9007199254740991 / 9007199254740992),
      Fin (4953959590107545 / 4503599627370496)]"
  by (simp add: np_cumsum_def tenths_rnd eval_nat_numeral)

lemma tenths_sum:
  "np_sum (replicate 11 (3602879701896397 / 36028797018963968)) = Fin (2476979795053773 / 2251799813685248)"
  by (simp add: np_sum_def pairwise_sum.simps add_blocks.simps add8_def tenths_rnd eval_nat_numeral)

lemma huge_numeral: "(2::rat) ^ 1023 = 89884656743115795386465259539451236680898848947115328636715040578866337902750481566354238661203768010560056939935696678829394884407208311246423715319737062188883946712432742638151109800623047059726541476042502884419075341171231440736956555270413618581675255342293149119973622969239858152417678164812112068608"
  by simp

lemma rnd_huge: "rnd (89884656743115795386465259539451236680898848947115328636715040578866337902750481566354238661203768010560056939935696678829394884407208311246423715319737062188883946712432742638151109800623047059726541476042502884419075341171231440736956555270413618581675255342293149119973622969239858152417678164812112068608) = Fin (89884656743115795386465259539451236680898848947115328636715040578866337902750481566354238661203768010560056939935696678829394884407208311246423715319737062188883946712432742638151109800623047059726541476042502884419075341171231440736956555270413618581675255342293149119973622969239858152417678164812112068608)"
  by (rule rnd_exact [where k = 1023 and e = 1023 and m = 1]) simp_all

lemma rnd_huge_twice: "rnd (179769313486231590772930519078902473361797697894230657273430081157732675805500963132708477322407536021120113879871393357658789768814416622492847430639474124377767893424865485276302219601246094119453082952085005768838150682342462881473913110540827237163350510684586298239947245938479716304835356329624224137216) = PInf"
  by (rule rnd_overflow [where k = 1024 and e = 1024 and m = 1]) simp_all

lemma overflow_cumsum: "np_cumsum [2 ^ 1023, 2 ^ 1023] = [Fin (2 ^ 1023), PInf]"
  by (simp add: np_cumsum_def huge_numeral rnd_huge rnd_huge_twice)

lemma overflow_sum: "np_sum [2 ^ 1023, 2 ^ 1023] = PInf"
  by (simp add: np_sum_def pairwise_sum.simps huge_numeral rnd_huge rnd_huge_twice)

lemma overflow_float64: "list_all float64 [2 ^ 1023, 2 ^ 1023]"
  by (simp add: float64_def huge_numeral rnd_huge)

lemma overflow_valid: "valid_weights [2 ^ 1023, 2 ^ 1023]"
  by (simp add: valid_weights_def)

lemma tie_valid: "valid_weights [0, 1]"
  by (simp add: valid_weights_def)

lemma tie_float64: "list_all float64 [0, 1]"
  by (simp add: float64_def rnd_zero rnd_small_ints)

lemma tie_wc: "wc [0, 1] = [Fin 0, Fin 1]"
  by (simp add: wc_def np_cumsum_def np_sum_def pairwise_sum.simps rnd_zero rnd_small_ints)

lemma tie_search: "searchsorted [Fin 0, Fin 1] [0] = [0]"
  by code_simp

lemma tie_sample:
  "fst (weightedRandomSample 1 [0, 1] \<lparr>rng = sconst 0, stdout = []\<rparr>) = Inr (RetSample [0] [0])"
  by (simp add: sample_draws tie_wc tie_search)

lemma quarters_rnd_1: "rnd (1 / 10) = Fin (3602879701896397 / 36028797018963968)"
  by (rule rnd_near [where k = "- 4" and e = "- 56" and m = "7205759403792794"]) simp_all

lemma quarters_rnd_2: "rnd (1 / 5) = Fin (3602879701896397 / 18014398509481984)"
  by (rule rnd_near [where k = "- 3" and e = "- 55" and m = "7205759403792794"]) simp_all

lemma quarters_rnd_3: "rnd (3 / 10) = Fin (5404319552844595 / 18014398509481984)"
  by (rule rnd_near [where k = "- 2" and e = "- 54" and m = "5404319552844595"]) simp_all

lemma quarters_rnd_4: "rnd (2 / 5) = Fin (3602879701896397 / 9007199254740992)"
  by (rule rnd_near [where k = "- 2" and e = "- 54" and m = "7205759403792794"]) simp_all

lemma quarters_rnd_5: "rnd (3602879701896397 / 36028797018963968) = Fin (3602879701896397 / 36028797018963968)"
  by (rule rnd_exact [where k = "- 4" and e = "- 56" and m = "7205759403792794"]) simp_all

lemma quarters_rnd_6: "rnd (3602879701896397 / 18014398509481984) = Fin (3602879701896397 / 18014398509481984)"
  by (rule rnd_exact [where k = "- 3" and e = "- 55" and m = "7205759403792794"]) simp_all

lemma quarters_rnd_7: "rnd (5404319552844595 / 18014398509481984) = Fin (5404319552844595 / 18014398509481984)"
  by (rule rnd_exact [where k = "- 2" and e = "- 54" and m = "5404319552844595"]) simp_all

lemma quarters_rnd_8: "rnd (3602879701896397 / 9007199254740992) = Fin (3602879701896397 / 9007199254740992)"
  by (rule rnd_exact [where k = "- 2" and e = "- 54" and m = "7205759403792794"]) simp_all

lemma quarters_rnd_9: "rnd (10808639105689191 / 36028797018963968) = Fin (1351079888211149 / 4503599627370496)"
  by (rule rnd_tie [where k = "- 2" and e = "- 54" and m = "5404319552844596"]) simp_all

lemma quarters_rnd_10: "rnd (10808639105689191 / 18014398509481984) = Fin (1351079888211149 / 2251799813685248)"
  by (rule rnd_tie [where k = "- 1" and e = "- 53" and m = "5404319552844596"]) simp_all

lemma quarters_rnd_11: "rnd (9007199254740993 / 9007199254740992) = Fin (1)"
  by (rule rnd_tie [where k = "0" and e = "- 52" and m = "4503599627370496"]) simp_all

lemma quarters_rnd_12: "rnd (1351079888211149 / 4503599627370496) = Fin (1351079888211149 / 4503599627370496)"
  by (rule rnd_exact [where k = "- 2" and e = "- 54" and m = "5404319552844596"]) simp_all

lemma quarters_rnd_13: "rnd (1351079888211149 / 2251799813685248) = Fin (1351079888211149 / 2251799813685248)"
  by (rule rnd_exact [where k = "- 1" and e = "- 53" and m = "5404319552844596"]) simp_all

lemmas quarters_rnd = quarters_rnd_1 quarters_rnd_2 quarters_rnd_3 quarters_rnd_4 quarters_rnd_5 quarters_rnd_6 quarters_rnd_7 quarters_rnd_8 quarters_rnd_9 quarters_rnd_10 quarters_rnd_11 quarters_rnd_12 quarters_rnd_13

lemmas quarters_lits = quarters_rnd_1 [THEN rtu_of_rnd] quarters_rnd_2 [THEN rtu_of_rnd] quarters_rnd_3 [THEN rtu_of_rnd] quarters_rnd_4 [THEN rtu_of_rnd]

lemma quarters_valid: "valid_weights [round_to_ulp (1 / 10), round_to_ulp (1 / 5), round_to_ulp (3 / 10), round_to_ulp (2 / 5)]"
  by (simp add: valid_weights_def quarters_lits)

lemma quarters_float64: "list_all float64 [round_to_ulp (1 / 10), round_to_ulp (1 / 5), round_to_ulp (3 / 10), round_to_ulp (2 / 5)]"
  by (simp add: float64_def quarters_lits quarters_rnd)

lemma quarters_wc:
  "wc [round_to_ulp (1 / 10), round_to_ulp (1 / 5), round_to_ulp (3 / 10), round_to_ulp (2 / 5)] =
     [Fin (3602879701896397 / 36028797018963968), Fin (1351079888211149 / 4503599627370496), Fin (1351079888211149 / 2251799813685248), Fin 1]"
  by (simp add: wc_def np_cumsum_def np_sum_def pairwise_sum.simps quarters_lits quarters_rnd
      rnd_zero rnd_small_ints)

lemma wc_all_zero:
  assumes z: "\<forall>w \<in> set ws. w = 0" and i: "i < length ws"
  shows "wc ws ! i = NaN"
proof -
  from z have "\<forall>w \<in> set ws. rnd w = Fin 0" by (auto simp: rnd_zero)
  then have "\<forall>c \<in> set (np_cumsum ws). c = Fin 0"
    by (intro np_cumsum_closed [where P = "\<lambda>a. a = Fin 0"]) (simp_all add: rnd_zero)
  moreover from i have "np_cumsum ws ! i \<in> set (np_cumsum ws)" by (simp add: np_cumsum_length)
  ultimately have "np_cumsum ws ! i = Fin 0" by blast
  with np_sum_zeros [OF z] i show ?thesis by (simp add: wc_nth)
qed

lemma pick_all_zero:
  assumes z: "\<forall>w \<in> set ws. w = 0"
  shows "bsearch_left (wc ws) key 0 (length (wc ws)) = 0"
proof (rule ccontr)
  let ?r = "bsearch_left (wc ws) key 0 (length (wc ws))"
  assume n0: "?r \<noteq> 0"
  with bsearch_left_passed [of 0 "length (wc ws)" "wc ws" key]
  have p: "np_less (wc ws ! (?r - 1)) key" by simp
  from pick_le_length [of ws key] n0 have "?r - 1 < length ws" by simp
  from wc_all_zero [OF z this] p show False by simp
qed

lemma five_halves: "stake 5 (sconst (1/2 :: rat)) = [1/2, 1/2, 1/2, 1/2, 1/2]"
  by (simp add: eval_nat_numeral)

lemma tenths_valid: "valid_weights (replicate 11 (round_to_ulp (1 / 10)))"
  by (simp add: valid_weights_def rnd_tenth [THEN rtu_of_rnd] eval_nat_numeral)

lemma tenths_float64: "list_all float64 (replicate 11 (round_to_ulp (1 / 10)))"
  by (simp add: float64_def rnd_tenth [THEN rtu_of_rnd] tenths_rnd eval_nat_numeral)

lemma tenths_last:
  "wc (replicate 11 (round_to_ulp (1 / 10))) ! 10 = Fin (1 - 1 / 2 ^ 52)"
  by (simp add: wc_nth rnd_tenth [THEN rtu_of_rnd] tenths_cumsum tenths_sum tenths_rnd)

lemma tenths_pick:
  "bsearch_left (wc (replicate 11 (round_to_ulp (1 / 10)))) (Fin (1 - 1 / 2 ^ 53)) 0
     (length (wc (replicate 11 (round_to_ulp (1 / 10))))) = 11"
proof -
  let ?ws = "replicate 11 (round_to_ulp (1 / 10))"
  have "np_less (wc ?ws ! (length ?ws - 1)) (Fin (1 - 1 / 2 ^ 53))"
    using tenths_last by simp
  moreover have "?ws \<noteq> []" by simp
  ultimately have "bsearch_left (wc ?ws) (Fin (1 - 1 / 2 ^ 53)) 0 (length (wc ?ws)) = length ?ws"
    by (intro pick_past_end valid_weights_nonneg [OF tenths_valid])
  then show ?thesis by simp
qed

lemma tenths_sample:
  "fst (weightedRandomSample 1 (replicate 11 (round_to_ulp (1 / 10)))
     \<lparr>rng = sconst (1 - 1 / 2 ^ 53), stdout = []\<rparr>) = Inr (RetSample [11] [1 - 1 / 2 ^ 53])"
  using tenths_pick
  by (simp add: sample_draws valid_weights_no_negative [OF tenths_valid] searchsorted_def)


section \<open>The claims\<close>

text \<open>
  Claim C1, as amended. With weights \<open>[1, 2, 3, 4]\<close> and the draws
  \<open>[0.05, 0.65, 0.95]\<close> (the doubles nearest to these decimals) the cumulative sequence is
  \<open>[0.1, 0.3, 0.6, 1.0]\<close> (the doubles nearest to \<open>1/10\<close>, \<open>3/10\<close>, \<open>3/5\<close> and 1) and
  the selected indices are \<open>[0, 3, 3]\<close>: the second draw passes \<open>0.6\<close> and stops at the
  entry \<open>1.0\<close>, which is index 3.
\<close>

theorem scenario_indices:
  "wc [1, 2, 3, 4] = [rnd (1 / 10), rnd (3 / 10), rnd (3 / 5), rnd 1] \<and>
   fst (weightedRandomSample 3 [1, 2, 3, 4]
     \<lparr>rng = round_to_ulp (1 / 20) ## round_to_ulp (13 / 20) ## round_to_ulp (19 / 20) ## g,
      stdout = out\<rparr>)
     = Inr (RetSample [0, 3, 3]
         [round_to_ulp (1 / 20), round_to_ulp (13 / 20), round_to_ulp (19 / 20)])"
  by (simp only: scenario_wc scenario_sample simp_thms)

text \<open>The indices \<open>[0, 2, 3]\<close> that claim C1 states are not what the sampler returns.\<close>

theorem scenario_indices_counterexample:
  "fst (weightedRandomSample 3 [1, 2, 3, 4]
     \<lparr>rng = round_to_ulp (1 / 20) ## round_to_ulp (13 / 20) ## round_to_ulp (19 / 20) ## sconst 0,
      stdout = []\<rparr>)
     \<noteq> Inr (RetSample [0, 2, 3]
         [round_to_ulp (1 / 20), round_to_ulp (13 / 20), round_to_ulp (19 / 20)])"
  by (simp add: scenario_sample)

text \<open>
  Claim C9. With \<open>n = 0\<close> and a valid weight sequence the sampler succeeds and returns
  two empty sequences; the generator and the output are left as they were.
\<close>

theorem zero_draws_empty:
  "valid_weights ws \<Longrightarrow> weightedRandomSample 0 ws w = (Inr (RetSample [] []), w)"
  by (simp add: sample_draws valid_weights_no_negative searchsorted_def)

theorem zero_draws_empty_witness:
  "valid_weights [1, 2, 3] \<and>
   weightedRandomSample 0 [1, 2, 3] \<lparr>rng = sconst (1/2), stdout = []\<rparr>
     = (Inr (RetSample [] []), \<lparr>rng = sconst (1/2), stdout = []\<rparr>)"
proof -
  have v: "valid_weights [1, 2, 3]" by (simp add: valid_weights_def)
  from zero_draws_empty [OF v] v show ?thesis by simp
qed

text \<open>
  Claim C2, as amended. When some weight is negative the sampler prints
  \<open>negative weight in weightedRandomSample\<close> and returns the float NaN as an ordinary
  value: it raises nothing. The random generator is left untouched.
\<close>

theorem negative_weight_returns_nan:
  "\<exists>x \<in> set ws. x < 0 \<Longrightarrow>
   fst (weightedRandomSample n ws w) = Inr RetNaN \<and>
   rng (snd (weightedRandomSample n ws w)) = rng w \<and>
   stdout (snd (weightedRandomSample n ws w)) =
     stdout w @ [''negative weight in weightedRandomSample'']"
  by (simp add: weightedRandomSample_def list_ex_iff)

theorem negative_weight_returns_nan_witness:
  "list_ex (\<lambda>x. x < 0) [1, - 2, 3 :: rat] \<and>
   fst (weightedRandomSample 5 [1, - 2, 3] \<lparr>rng = sconst (1/2), stdout = []\<rparr>) = Inr RetNaN \<and>
   rng (snd (weightedRandomSample 5 [1, - 2, 3] \<lparr>rng = sconst (1/2), stdout = []\<rparr>))
     = sconst (1/2)"
proof -
  have h: "\<exists>x \<in> set [1, - 2, 3 :: rat]. x < 0" by simp
  from negative_weight_returns_nan [OF h, of 5 "\<lparr>rng = sconst (1/2), stdout = []\<rparr>"]
  show ?thesis by simp
qed

text \<open>Against claim C2 as stated: on \<open>n = 5\<close>, weights \<open>[1, -2, 3]\<close> the outcome is
  not an error but the returned value NaN.\<close>

theorem negative_weight_counterexample:
  "\<not> isl (fst (weightedRandomSample 5 [1, - 2, 3] \<lparr>rng = sconst (1/2), stdout = []\<rparr>)) \<and>
   fst (weightedRandomSample 5 [1, - 2, 3] \<lparr>rng = sconst (1/2), stdout = []\<rparr>) = Inr RetNaN"
  by (simp add: weightedRandomSample_def)

text \<open>
  Claim C3, as amended. When every weight is zero and \<open>n > 0\<close> the sampler does not
  fail: the division by the zero total makes every cumulative entry NaN, \<open>n\<close> draws are
  taken from the generator, and index 0 is returned for each of them.
\<close>

theorem zero_total_returns_zeros:
  "\<forall>x \<in> set ws. x = 0 \<Longrightarrow> 0 < n \<Longrightarrow>
   weightedRandomSample n ws w =
     (Inr (RetSample (replicate (nat n) 0) (stake (nat n) (rng w))),
      w\<lparr>rng := sdrop (nat n) (rng w)\<rparr>)"
proof -
  assume z: "\<forall>x \<in> set ws. x = 0" and n: "0 < n"
  from z have "\<not> list_ex (\<lambda>x. x < 0) ws" by (auto simp: list_ex_iff)
  moreover have "searchsorted (wc ws) vs = replicate (length vs) 0" for vs
    using z by (simp add: searchsorted_def pick_all_zero map_replicate_const)
  ultimately show ?thesis using n by (simp add: sample_draws)
qed

theorem zero_total_returns_zeros_witness:
  "list_all (\<lambda>x. x = 0) [0, 0, 0 :: rat] \<and>
   fst (weightedRandomSample 2 [0, 0, 0] \<lparr>rng = sconst (1/2), stdout = []\<rparr>)
     = Inr (RetSample [0, 0] [1/2, 1/2])"
proof -
  have h: "\<forall>x \<in> set [0, 0, 0 :: rat]. x = 0" by simp
  from zero_total_returns_zeros [OF h, of 2 "\<lparr>rng = sconst (1/2), stdout = []\<rparr>"]
  show ?thesis by (simp add: eval_nat_numeral)
qed

text \<open>Against claim C3 as stated: on \<open>n = 5\<close>, weights \<open>[0, 0, 0]\<close> the outcome is
  not an error but five times index 0.\<close>

theorem zero_total_counterexample:
  "\<not> isl (fst (weightedRandomSample 5 [0, 0, 0] \<lparr>rng = sconst (1/2), stdout = []\<rparr>)) \<and>
   fst (weightedRandomSample 5 [0, 0, 0] \<lparr>rng = sconst (1/2), stdout = []\<rparr>)
     = Inr (RetSample [0, 0, 0, 0, 0] [1/2, 1/2, 1/2, 1/2, 1/2])"
proof -
  have z: "\<forall>w \<in> set [0, 0, 0 :: rat]. w = 0" by simp
  have "searchsorted (wc [0, 0, 0]) [1/2, 1/2, 1/2, 1/2, 1/2] = [0, 0, 0, 0, 0]"
    by (simp add: searchsorted_def pick_all_zero [OF z])
  then show ?thesis using five_halves by (simp add: sample_draws)
qed

text \<open>
  Claim C4, as amended. With \<open>n < 0\<close> and no negative weight the call fails: numpy's
  \<open>random_sample\<close> raises \<open>ValueError\<close> for the negative size, and neither the generator
  nor the output has changed. With \<open>n < 0\<close> and some negative weight the negative-weight
  branch runs first and NaN is returned.
\<close>

theorem negative_count_outcome:
  "n < 0 \<Longrightarrow>
   weightedRandomSample n ws w =
     (if \<exists>x \<in> set ws. x < 0
      then (Inr RetNaN, w\<lparr>stdout := stdout w @ [''negative weight in weightedRandomSample'']\<rparr>)
      else (Inl ValueError, w))"
  by (simp add: weightedRandomSample_def random_sample_def list_ex_iff)

theorem negative_count_outcome_witness:
  "(- 1 :: int) < 0 \<and>
   weightedRandomSample (- 1) [1, 2, 3] \<lparr>rng = sconst (1/2), stdout = []\<rparr>
     = (Inl ValueError, \<lparr>rng = sconst (1/2), stdout = []\<rparr>)"
proof -
  have h: "(- 1 :: int) < 0" by simp
  from negative_count_outcome [OF h, of "[1, 2, 3]" "\<lparr>rng = sconst (1/2), stdout = []\<rparr>"]
  show ?thesis by simp
qed

text \<open>Against claim C4 as stated: on \<open>n = -1\<close>, weights \<open>[1, -2, 3]\<close> the call does
  not fail; it returns NaN.\<close>

theorem negative_count_counterexample:
  "\<not> isl (fst (weightedRandomSample (- 1) [1, - 2, 3] \<lparr>rng = sconst (1/2), stdout = []\<rparr>)) \<and>
   fst (weightedRandomSample (- 1) [1, - 2, 3] \<lparr>rng = sconst (1/2), stdout = []\<rparr>) = Inr RetNaN"
  by (simp add: weightedRandomSample_def)

text \<open>
  Claim C5, refuted on the code by one input. Eleven weights \<open>0.1\<close> are valid. Their
  running sum ends at \<open>1.0999999999999999\<close>, while \<open>np.sum\<close>, which adds in another
  order, gives \<open>1.1\<close>; the last cumulative entry is therefore \<open>1 - 2^-52\<close> and not 1.
  The draw \<open>1 - 2^-53\<close>, the largest value below 1, lies above it, and the index
  returned is 11: the number of weights, one past the last position.
\<close>

theorem index_out_of_range:
  "valid_weights (replicate 11 (round_to_ulp (1 / 10))) \<and>
   list_all float64 (replicate 11 (round_to_ulp (1 / 10))) \<and>
   unit_draw (1 - 1 / 2 ^ 53) \<and>
   wc (replicate 11 (round_to_ulp (1 / 10))) ! 10 = Fin (1 - 1 / 2 ^ 52) \<and>
   fst (weightedRandomSample 1 (replicate 11 (round_to_ulp (1 / 10)))
     \<lparr>rng = sconst (1 - 1 / 2 ^ 53), stdout = []\<rparr>) = Inr (RetSample [11] [1 - 1 / 2 ^ 53]) \<and>
   length (replicate 11 (round_to_ulp (1 / 10))) = 11"
  using tenths_valid tenths_float64 tenths_last tenths_sample
  by (simp add: unit_draw_def)




text \<open>
  Claim C7, as amended. For a valid sequence of binary64 weights and draws in \<open>[0, 1)\<close>,
  a position whose weight is zero is returned in one case only: position 0, for a draw
  of exactly 0. No other zero-weight position is ever returned.
\<close>

theorem zero_weight_only_at_zero_draw:
  "valid_weights ws \<Longrightarrow> list_all float64 ws \<Longrightarrow> 0 \<le> n \<Longrightarrow>
   list_all unit_draw (stake (nat n) (rng w)) \<Longrightarrow>
   \<exists>idx us. fst (weightedRandomSample n ws w) = Inr (RetSample idx us) \<and>
     us = stake (nat n) (rng w) \<and> length idx = nat n \<and>
     (\<forall>i < nat n. idx ! i < length ws \<and> ws ! (idx ! i) = 0 \<longrightarrow> idx ! i = 0 \<and> us ! i = 0)"
proof -
  assume v: "valid_weights ws" and f: "list_all float64 ws" and n: "0 \<le> n"
    and u: "list_all unit_draw (stake (nat n) (rng w))"
  let ?us = "stake (nat n) (rng w)"
  let ?idx = "searchsorted (wc ws) ?us"
  have r: "fst (weightedRandomSample n ws w) = Inr (RetSample ?idx ?us)"
    using valid_weights_no_negative [OF v] n by (simp add: sample_draws)
  have each: "?idx ! i = 0 \<and> ?us ! i = 0"
    if i: "i < nat n" and z: "?idx ! i < length ws \<and> ws ! (?idx ! i) = 0" for i
  proof -
    from i have il: "i < length ?us" by simp
    then have pick: "?idx ! i = bsearch_left (wc ws) (Fin (?us ! i)) 0 (length (wc ws))"
      by (rule searchsorted_nth)
    from il have "?us ! i \<in> set ?us" by (rule nth_mem)
    with u have t0: "0 \<le> ?us ! i" by (auto simp: list_all_iff unit_draw_def)
    from z have "bsearch_left (wc ws) (Fin (?us ! i)) 0 (length (wc ws)) < length ws"
      and "ws ! bsearch_left (wc ws) (Fin (?us ! i)) 0 (length (wc ws)) = 0"
      unfolding pick by simp_all
    from pick_zero_weight [OF v f this]
    have p0: "bsearch_left (wc ws) (Fin (?us ! i)) 0 (length (wc ws)) = 0"
      and tle: "?us ! i \<le> 0" by simp_all
    from tle t0 have "?us ! i = 0" by simp
    with trans [OF pick p0] show ?thesis by (rule conjI)
  qed
  have len: "length ?idx = nat n" by (simp add: searchsorted_length)
  from each have all: "\<forall>i < nat n. ?idx ! i < length ws \<and> ws ! (?idx ! i) = 0 \<longrightarrow>
      ?idx ! i = 0 \<and> ?us ! i = 0" by blast
  from r len all show ?thesis by blast
qed

theorem zero_weight_only_at_zero_draw_witness:
  "valid_weights [0, 1] \<and> list_all float64 [0, 1] \<and> (0 :: int) \<le> 1 \<and>
   list_all unit_draw (stake (nat 1) (sconst 0)) \<and>
   (\<exists>idx us. fst (weightedRandomSample 1 [0, 1] \<lparr>rng = sconst 0, stdout = []\<rparr>)
        = Inr (RetSample idx us) \<and> length idx = 1 \<and> idx ! 0 = 0 \<and> us ! 0 = 0)"
proof -
  let ?w = "\<lparr>rng = sconst (0 :: rat), stdout = []\<rparr>"
  have n: "(0 :: int) \<le> 1" by simp
  have u: "list_all unit_draw (stake (nat 1) (rng ?w))" by (simp add: unit_draw_def)
  from zero_weight_only_at_zero_draw [OF tie_valid tie_float64 n u]
  obtain idx us where
    r: "fst (weightedRandomSample 1 [0, 1] ?w) = Inr (RetSample idx us)"
    and len: "length idx = nat 1"
    and each: "\<forall>i < nat 1. idx ! i < length [0, 1 :: rat] \<and> [0, 1 :: rat] ! (idx ! i) = 0 \<longrightarrow>
        idx ! i = 0 \<and> us ! i = 0"
    by blast
  from r tie_sample have "idx = [0]" by simp
  with each have z: "idx ! 0 = 0 \<and> us ! 0 = 0" by simp
  from len have len': "length idx = 1" by simp
  from u have u': "list_all unit_draw (stake (nat 1) (sconst 0))" by simp
  from tie_valid tie_float64 n u' r len' z show ?thesis by blast
qed

text \<open>Against claim C7 as stated: weights \<open>[0, 1]\<close> are valid, the draw \<open>0\<close> lies in
  \<open>[0, 1)\<close>, and the index returned for it is 0, whose weight is zero.\<close>

theorem zero_weight_counterexample:
  "valid_weights [0, 1] \<and> list_all unit_draw (stake 1 (sconst 0)) \<and>
   fst (weightedRandomSample 1 [0, 1] \<lparr>rng = sconst 0, stdout = []\<rparr>) = Inr (RetSample [0] [0]) \<and>
   [0, 1 :: rat] ! 0 = 0"
  by (simp add: tie_valid tie_sample unit_draw_def)

text \<open>
  Claim C8, refuted on the code by one input. The weights \<open>[2^1023, 2^1023]\<close> are finite,
  positive doubles, so they are valid. Their sum overflows: the running sum ends in plus
  infinity and so does the total, and the cumulative sequence is \<open>[0.0, nan]\<close>. Its final
  entry is NaN, not 1.
\<close>

theorem overflow_final_entry_nan:
  "valid_weights [2 ^ 1023, 2 ^ 1023] \<and> list_all float64 [2 ^ 1023, 2 ^ 1023] \<and>
   np_cumsum [2 ^ 1023, 2 ^ 1023] = [Fin (2 ^ 1023), PInf] \<and>
   np_sum [2 ^ 1023, 2 ^ 1023] = PInf \<and>
   wc [2 ^ 1023, 2 ^ 1023] = [Fin 0, NaN] \<and>
   last (wc [2 ^ 1023, 2 ^ 1023]) = NaN"
  using overflow_valid overflow_float64 overflow_cumsum overflow_sum
  by (simp add: wc_def)

text \<open>
  Claim C10. For a valid sequence of binary64 weights, when the \<open>i\<close>-th raw value equals
  an entry of the cumulative sequence, the index returned for it is the smallest position
  holding that value: it is at most every such position and its own entry equals the
  value. When the first weight is zero the first cumulative entry is 0, and a raw value
  of exactly 0 returns index 0, an item of weight zero. The cumulative sequence is the
  one the weights fix: rounded running sums, each divided by the rounded total.
\<close>

theorem tie_selects_leftmost:
  "valid_weights ws \<Longrightarrow> list_all float64 ws \<Longrightarrow> 0 \<le> n \<Longrightarrow>
   \<exists>idx us. fst (weightedRandomSample n ws w) = Inr (RetSample idx us) \<and>
     us = stake (nat n) (rng w) \<and> length idx = nat n \<and>
     (\<forall>i < nat n.
        (\<forall>k < length ws. wc ws ! k = Fin (us ! i) \<longrightarrow>
           idx ! i \<le> k \<and> wc ws ! (idx ! i) = Fin (us ! i)) \<and>
        (ws ! 0 = 0 \<and> us ! i = 0 \<longrightarrow> idx ! i = 0 \<and> ws ! (idx ! i) = 0)) \<and>
     (ws ! 0 = 0 \<longrightarrow> wc ws ! 0 = Fin 0) \<and>
     (\<forall>k < length ws. wc ws ! k = np_divide (np_cumsum ws ! k) (np_sum ws)) \<and>
     np_cumsum ws ! 0 = rnd (ws ! 0) \<and>
     (\<forall>k. Suc k < length ws \<longrightarrow>
        np_cumsum ws ! Suc k = np_add (np_cumsum ws ! k) (rnd (ws ! Suc k)))"
proof -
  assume v: "valid_weights ws" and f: "list_all float64 ws" and n: "0 \<le> n"
  note nn = valid_weights_nonneg [OF v]
  let ?us = "stake (nat n) (rng w)"
  let ?idx = "searchsorted (wc ws) ?us"
  have r: "fst (weightedRandomSample n ws w) = Inr (RetSample ?idx ?us)"
    using valid_weights_no_negative [OF v] n by (simp add: sample_draws)
  from v have ne: "ws \<noteq> []" by (simp add: valid_weights_def)
  then have l0: "0 < length ws" by simp
  have first: "ws ! 0 = 0 \<longrightarrow> wc ws ! 0 = Fin 0"
    using wc_first_zero [OF v f] by blast
  have each: "(\<forall>k < length ws. wc ws ! k = Fin (?us ! i) \<longrightarrow>
           ?idx ! i \<le> k \<and> wc ws ! (?idx ! i) = Fin (?us ! i)) \<and>
        (ws ! 0 = 0 \<and> ?us ! i = 0 \<longrightarrow> ?idx ! i = 0 \<and> ws ! (?idx ! i) = 0)"
    if i: "i < nat n" for i
  proof -
    from i have "i < length ?us" by simp
    then have pick: "?idx ! i = bsearch_left (wc ws) (Fin (?us ! i)) 0 (length (wc ws))"
      by (rule searchsorted_nth)
    have tie: "?idx ! i \<le> k \<and> wc ws ! (?idx ! i) = Fin (?us ! i)"
      if "k < length ws" "wc ws ! k = Fin (?us ! i)" for k
      unfolding pick by (rule pick_tie [OF nn that])
    have "?idx ! i = 0 \<and> ws ! (?idx ! i) = 0" if z: "ws ! 0 = 0" and t: "?us ! i = 0"
    proof -
      from wc_first_zero [OF v f z] t have "wc ws ! 0 = Fin (?us ! i)" by simp
      from tie [OF l0 this] z show ?thesis by simp
    qed
    with tie show ?thesis by blast
  qed
  have pin: "(\<forall>k < length ws. wc ws ! k = np_divide (np_cumsum ws ! k) (np_sum ws)) \<and>
     np_cumsum ws ! 0 = rnd (ws ! 0) \<and>
     (\<forall>k. Suc k < length ws \<longrightarrow>
        np_cumsum ws ! Suc k = np_add (np_cumsum ws ! k) (rnd (ws ! Suc k)))"
    using np_cumsum_0 [OF ne] by (simp add: wc_nth np_cumsum_Suc)
  have len: "length ?idx = nat n" by (simp add: searchsorted_length)
  from each have all: "\<forall>i < nat n.
        (\<forall>k < length ws. wc ws ! k = Fin (?us ! i) \<longrightarrow>
           ?idx ! i \<le> k \<and> wc ws ! (?idx ! i) = Fin (?us ! i)) \<and>
        (ws ! 0 = 0 \<and> ?us ! i = 0 \<longrightarrow> ?idx ! i = 0 \<and> ws ! (?idx ! i) = 0)" by blast
  from r len all first pin show ?thesis by blast
qed

theorem tie_selects_leftmost_witness:
  "valid_weights [round_to_ulp (1 / 10), round_to_ulp (1 / 5), round_to_ulp (3 / 10), round_to_ulp (2 / 5)] \<and>
   list_all float64 [round_to_ulp (1 / 10), round_to_ulp (1 / 5), round_to_ulp (3 / 10), round_to_ulp (2 / 5)] \<and>
   (0 :: int) \<le> 1 \<and>
   (\<exists>idx us. fst (weightedRandomSample 1
        [round_to_ulp (1 / 10), round_to_ulp (1 / 5), round_to_ulp (3 / 10), round_to_ulp (2 / 5)]
        \<lparr>rng = sconst (round_to_ulp (3 / 5) + 1 / 2 ^ 53), stdout = []\<rparr>)
        = Inr (RetSample idx us) \<and>
      us = [round_to_ulp (3 / 5) + 1 / 2 ^ 53] \<and> length idx = 1 \<and> idx ! 0 \<le> 2 \<and>
      wc [round_to_ulp (1 / 10), round_to_ulp (1 / 5), round_to_ulp (3 / 10), round_to_ulp (2 / 5)]
        ! (idx ! 0) = Fin (round_to_ulp (3 / 5) + 1 / 2 ^ 53))"
proof -
  let ?ws = "[round_to_ulp (1 / 10), round_to_ulp (1 / 5), round_to_ulp (3 / 10), round_to_ulp (2 / 5)]"
  let ?t = "round_to_ulp (3 / 5) + 1 / 2 ^ 53"
  let ?w = "\<lparr>rng = sconst ?t, stdout = []\<rparr>"
  have n: "(0 :: int) \<le> 1" by simp
  from tie_selects_leftmost [OF quarters_valid quarters_float64 n, of ?w]
  obtain idx us where
    r: "fst (weightedRandomSample 1 ?ws ?w) = Inr (RetSample idx us)"
    and us: "us = stake (nat 1) (rng ?w)"
    and len: "length idx = nat 1"
    and each: "\<forall>i < nat 1.
        (\<forall>k < length ?ws. wc ?ws ! k = Fin (us ! i) \<longrightarrow>
           idx ! i \<le> k \<and> wc ?ws ! (idx ! i) = Fin (us ! i)) \<and>
        (?ws ! 0 = 0 \<and> us ! i = 0 \<longrightarrow> idx ! i = 0 \<and> ?ws ! (idx ! i) = 0)"
    by blast
  from us have us': "us = [?t]" by simp
  from len have len': "length idx = 1" by simp
  from each have "\<forall>k < length ?ws. wc ?ws ! k = Fin (us ! 0) \<longrightarrow>
           idx ! 0 \<le> k \<and> wc ?ws ! (idx ! 0) = Fin (us ! 0)" by simp
  moreover have "2 < length ?ws" by simp
  ultimately have "wc ?ws ! 2 = Fin (us ! 0) \<longrightarrow> idx ! 0 \<le> 2 \<and> wc ?ws ! (idx ! 0) = Fin (us ! 0)"
    by blast
  moreover have "wc ?ws ! 2 = Fin (us ! 0)"
    by (simp add: quarters_wc us' rnd_three_fifths [THEN rtu_of_rnd])
  ultimately have "idx ! 0 \<le> 2 \<and> wc ?ws ! (idx ! 0) = Fin (us ! 0)" by blast
  with us' have z: "idx ! 0 \<le> 2 \<and> wc ?ws ! (idx ! 0) = Fin ?t" by simp
  from quarters_valid quarters_float64 n r us' len' z show ?thesis by blast
qed

end
